(* ===== verification/Prelude.thy ===== *)
theory Prelude
  imports Main "HOL-Library.Word" "HOL-Library.Sublist" "HOL-Library.Multiset"
begin

text \<open>
  Shared vocabulary of the development: the POSIX signals that the controller
  (\<^verbatim>\<open>src/Signals/src/handler.c\<close>) sends and the counter
  (\<^verbatim>\<open>src/Signals/infcounter/src/counter.c\<close>) receives, the C machine integer
  \<^verbatim>\<open>sig_atomic_t\<close> as a 32-bit word, and generic lemmas on lists and signed
  words that the component theories share.
\<close>

named_theorems counter_simps \<open>unfolding rules for the counter process model\<close>
named_theorems ctl_simps \<open>unfolding rules for the controller model\<close>

section \<open>Process identifiers and machine integers\<close>

type_synonym pid = int

text \<open>
  \<^verbatim>\<open>sig_atomic_t\<close> is \<^verbatim>\<open>int\<close> on the LP64 Linux targets the program is built for:
  a 32-bit two's-complement integer. \<open>+\<close> on \<open>sword\<close> wraps, \<open>sint\<close> reads the
  C value.
\<close>

type_synonym sword = "32 word"

abbreviation INT_MAX :: int where "INT_MAX \<equiv> 2 ^ 31 - 1"
abbreviation INT_MIN :: int where "INT_MIN \<equiv> - (2 ^ 31)"

section \<open>Signals\<close>

text \<open>
  The five signals the program names. \<open>signum\<close> gives their numbers on Linux
  (\<^verbatim>\<open><signal.h>\<close>), which the counter's handler compares against.
\<close>

datatype sig = SIGSTOP | SIGCONT | SIGUSR1 | SIGUSR2 | SIGKILL

fun signum :: "sig \<Rightarrow> int" where
  "signum SIGKILL = 9"
| "signum SIGUSR1 = 10"
| "signum SIGUSR2 = 12"
| "signum SIGCONT = 18"
| "signum SIGSTOP = 19"

lemma signum_eq_iff [simp]: "signum a = signum b \<longleftrightarrow> a = b"
  by (cases a; cases b) simp_all

section \<open>Removing one entry of a list\<close>

text \<open>
  Reference operation for the registry compaction of the controller: drop the
  entry at 0-based index \<open>k\<close>, keep the others in order.
\<close>

definition remove_nth :: "nat \<Rightarrow> 'a list \<Rightarrow> 'a list" where
  "remove_nth k xs = take k xs @ drop (Suc k) xs"

lemma length_remove_nth [simp]:
  "k < length xs \<Longrightarrow> length (remove_nth k xs) = length xs - 1"
  by (simp add: remove_nth_def)

lemma nth_remove_nth:
  "k < length xs \<Longrightarrow> j < length xs - 1 \<Longrightarrow>
     remove_nth k xs ! j = (if j < k then xs ! j else xs ! Suc j)"
  by (simp add: remove_nth_def nth_append min_def)

lemma subseq_remove_nth [intro]: "subseq (remove_nth k xs) xs"
proof -
  have "subseq (drop (Suc k) xs) (drop k xs)"
    by (cases "drop k xs") (auto simp: drop_Suc drop_tl)
  then have "subseq (take k xs @ drop (Suc k) xs) (take k xs @ drop k xs)"
    by (simp only: subseq_append')
  then show ?thesis by (simp add: remove_nth_def)
qed

lemma remove_nth_Cons_0 [simp]: "remove_nth 0 (x # xs) = xs"
  by (simp add: remove_nth_def)

lemma set_remove_nth: "set (remove_nth k xs) \<subseteq> set xs"
  by (auto simp: remove_nth_def dest: in_set_takeD in_set_dropD)

lemma set_remove_nth_insert: "k < length xs \<Longrightarrow> set xs = insert (xs ! k) (set (remove_nth k xs))"
  by (metis remove_nth_def id_take_nth_drop list.simps(15) set_append Un_insert_right)

lemma mset_remove_nth:
  "k < length xs \<Longrightarrow> mset xs = add_mset (xs ! k) (mset (remove_nth k xs))"
  by (metis remove_nth_def id_take_nth_drop mset_append mset.simps(2) union_mset_add_mset_right)

section \<open>Signed 32-bit arithmetic\<close>

text \<open>
  Where the C addition does not overflow, the wrapped word sum reads back as the
  integer sum; these are the only facts about \<open>sint\<close> the components need.
\<close>

lemma sint_add_no_overflow:
  fixes a b :: sword
  assumes "INT_MIN \<le> sint a + sint b" and "sint a + sint b \<le> INT_MAX"
  shows "sint (a + b) = sint a + sint b"
  using assms by (simp add: sint_word_ariths signed_take_bit_int_eq_self)

lemma sint_minus_one [simp]: "sint (- 1 :: sword) = - 1"
  by simp

lemma sint_one [simp]: "sint (1 :: sword) = 1"
  by simp

end
