(* ===== verification/Counter.thy ===== *)
theory Counter
  imports Prelude
begin

text \<open>
  Model of the infinite counter process, \<^verbatim>\<open>src/Signals/infcounter/src/counter.c\<close>.
  The two \<^verbatim>\<open>volatile sig_atomic_t\<close> globals \<^verbatim>\<open>i\<close> and \<^verbatim>\<open>sign\<close> are fields
  of the record \<open>cstate\<close>, with the main loop's program point, the process status
  kept by the kernel (running, stopped, killed), the set of pending signals, the set
  of signals whose handler is installed, the process id and the printed lines.
  \<open>handler\<close> is the signal handler; \<open>main_step\<close> is one statement of
  \<^verbatim>\<open>main\<close>, with \<^verbatim>\<open>i += sign\<close> split into its load and its store, because a
  signal can be handled between them. \<open>cstep\<close> interleaves the main loop with
  signal generation and delivery, \<open>crun\<close> runs a list of such events, and
  \<open>creach\<close> is the set of states reachable from the start of \<^verbatim>\<open>main\<close>.
\<close>

section \<open>State\<close>

datatype pstatus = Running | Stopped | Killed

text \<open>
  Program points of \<^verbatim>\<open>main\<close>: before each \<^verbatim>\<open>signal\<close> call (lines 29, 30),
  before \<^verbatim>\<open>printf\<close> (34), before the load of \<^verbatim>\<open>i += sign\<close> (37), between
  its load and its store (holding the computed sum) and before \<^verbatim>\<open>sleep\<close> (40).
  The load reads both operands of \<^verbatim>\<open>i += sign\<close>. C leaves the order of the
  two reads open, so a signal handled between them is modelled as handled after
  both.
\<close>

datatype cpc = RegUsr1 | RegUsr2 | Print | Load | Store sword | Sleep

record cstate =
  i :: sword
  sign :: sword
  cpc :: cpc
  status :: pstatus
  pending :: "sig set"
  handled :: "sig set"
  cpid :: pid
  out :: "(int \<times> pid) list"

definition counter_init :: "pid \<Rightarrow> cstate" where
  "counter_init p =
     \<lparr>i = 0, sign = 1, cpc = RegUsr1, status = Running, pending = {}, handled = {},
      cpid = p, out = []\<rparr>"

section \<open>The signal handler\<close>

text \<open>\<^verbatim>\<open>void handler(int sig)\<close>: two independent tests on the signal number.\<close>

definition handler :: "int \<Rightarrow> cstate \<Rightarrow> cstate" where
  "handler sg s =
     (let s1 = (if sg = signum SIGUSR1 then s\<lparr>i := 0\<rparr> else s)
      in if sg = signum SIGUSR2 then s1\<lparr>sign := - sign s1\<rparr> else s1)"

section \<open>The main loop\<close>

definition main_step :: "cstate \<Rightarrow> cstate" where
  "main_step s =
     (case cpc s of
        RegUsr1 \<Rightarrow> s\<lparr>handled := insert SIGUSR1 (handled s), cpc := RegUsr2\<rparr>
      | RegUsr2 \<Rightarrow> s\<lparr>handled := insert SIGUSR2 (handled s), cpc := Print\<rparr>
      | Print \<Rightarrow> s\<lparr>out := out s @ [(sint (i s), cpid s)], cpc := Load\<rparr>
      | Load \<Rightarrow> s\<lparr>cpc := Store (i s + sign s)\<rparr>
      | Store v \<Rightarrow> s\<lparr>i := v, cpc := Sleep\<rparr>
      | Sleep \<Rightarrow> s\<lparr>cpc := Print\<rparr>)"

section \<open>Signal generation and delivery\<close>

text \<open>
  The kernel side, as POSIX describes it: \<^verbatim>\<open>SIGKILL\<close> ends the process,
  \<^verbatim>\<open>SIGSTOP\<close> and \<^verbatim>\<open>SIGCONT\<close> stop and resume it when they are generated,
  other signals become pending. A pending signal is a set member, so a second
  \<^verbatim>\<open>SIGUSR2\<close> sent before the first is delivered is merged with it. A pending
  signal is delivered only while the process runs; with no handler installed its
  default action (for \<^verbatim>\<open>SIGUSR1\<close> and \<^verbatim>\<open>SIGUSR2\<close>) terminates the process.
\<close>

datatype cevent = MainStep | Send sig | Deliver sig

definition kernel_send :: "sig \<Rightarrow> cstate \<Rightarrow> cstate" where
  "kernel_send g s =
     (if status s = Killed then s
      else (case g of
              SIGKILL \<Rightarrow> s\<lparr>status := Killed, pending := {}\<rparr>
            | SIGSTOP \<Rightarrow> s\<lparr>status := Stopped\<rparr>
            | SIGCONT \<Rightarrow> s\<lparr>status := Running\<rparr>
            | _ \<Rightarrow> s\<lparr>pending := insert g (pending s)\<rparr>))"

definition deliver :: "sig \<Rightarrow> cstate \<Rightarrow> cstate" where
  "deliver g s =
     (if status s = Running \<and> g \<in> pending s then
        (let s' = s\<lparr>pending := pending s - {g}\<rparr>
         in if g \<in> handled s' then handler (signum g) s'
            else s'\<lparr>status := Killed, pending := {}\<rparr>)
      else s)"

fun cstep :: "cstate \<Rightarrow> cevent \<Rightarrow> cstate" where
  "cstep s MainStep = (if status s = Running then main_step s else s)"
| "cstep s (Send g) = kernel_send g s"
| "cstep s (Deliver g) = deliver g s"

fun crun :: "cstate \<Rightarrow> cevent list \<Rightarrow> cstate" where
  "crun s [] = s"
| "crun s (e # es) = crun (cstep s e) es"

inductive creach :: "pid \<Rightarrow> cstate \<Rightarrow> bool" for p where
  init: "creach p (counter_init p)"
| step: "creach p s \<Longrightarrow> creach p (cstep s e)"

section \<open>Invariant\<close>

text \<open>
  The installed handlers are determined by the program point; only
  \<^verbatim>\<open>SIGUSR1\<close> and \<^verbatim>\<open>SIGUSR2\<close> are ever pending; the direction is
  \<open>1\<close> or \<open>-1\<close>.
\<close>

fun handled_at :: "cpc \<Rightarrow> sig set" where
  "handled_at RegUsr1 = {}"
| "handled_at RegUsr2 = {SIGUSR1}"
| "handled_at _ = {SIGUSR1, SIGUSR2}"

definition sign_ok :: "sword \<Rightarrow> bool" where
  "sign_ok w \<longleftrightarrow> w = 1 \<or> w = - 1"

definition counter_inv :: "cstate \<Rightarrow> bool" where
  "counter_inv s \<longleftrightarrow>
     sign_ok (sign s) \<and> handled s = handled_at (cpc s) \<and> pending s \<subseteq> {SIGUSR1, SIGUSR2}"

section \<open>Auxiliary definitions for the statements\<close>

text \<open>
  \<open>tick_events n\<close> is \<open>n\<close> undisturbed iterations of the \<^verbatim>\<open>while (1)\<close> body
  (print, load, store, sleep). \<open>registered p\<close> is the process after both
  \<^verbatim>\<open>signal\<close> calls. \<open>steps_to_print pc\<close> is the number of main-loop steps from
  \<open>pc\<close> up to and including the next \<^verbatim>\<open>printf\<close>, and \<open>printed_after_reset s\<close>
  the value that \<^verbatim>\<open>printf\<close> shows when \<^verbatim>\<open>SIGUSR1\<close> is handled in state \<open>s\<close>.
\<close>

definition tick_events :: "nat \<Rightarrow> cevent list" where
  "tick_events n = concat (replicate n [MainStep, MainStep, MainStep, MainStep])"

definition registered :: "pid \<Rightarrow> cstate" where
  "registered p = crun (counter_init p) [MainStep, MainStep]"

fun steps_to_print :: "cpc \<Rightarrow> nat" where
  "steps_to_print Print = 1"
| "steps_to_print Load = 4"
| "steps_to_print (Store v) = 3"
| "steps_to_print Sleep = 2"
| "steps_to_print _ = 0"

fun printed_after_reset :: "cstate \<Rightarrow> int" where
  "printed_after_reset s =
     (case cpc s of Load \<Rightarrow> sint (sign s) | Store v \<Rightarrow> sint v | _ \<Rightarrow> 0)"

text \<open>
  \<open>out_inv s\<close> relates the program point and \<^verbatim>\<open>i\<close> to the last printed value \<open>w\<close>:
  before the load \<^verbatim>\<open>i\<close> is \<open>w\<close> or was reset; the stored sum is \<open>w\<close> plus
  or minus one, or the direction alone; before \<^verbatim>\<open>sleep\<close> and \<^verbatim>\<open>printf\<close>
  \<^verbatim>\<open>i\<close> is one of these or \<open>0\<close>. Before the first \<^verbatim>\<open>printf\<close>, \<^verbatim>\<open>i\<close> is
  \<open>0\<close>.
\<close>

fun pc_ok :: "sword \<Rightarrow> sword \<Rightarrow> cpc \<Rightarrow> bool" where
  "pc_ok w x Load \<longleftrightarrow> x \<in> {w, 0}"
| "pc_ok w x (Store v) \<longleftrightarrow> v \<in> {w + 1, w - 1, 1, - 1}"
| "pc_ok w x Print \<longleftrightarrow> x \<in> {w + 1, w - 1, 0, 1, - 1}"
| "pc_ok w x Sleep \<longleftrightarrow> x \<in> {w + 1, w - 1, 0, 1, - 1}"
| "pc_ok w x _ \<longleftrightarrow> False"

definition out_inv :: "cstate \<Rightarrow> bool" where
  "out_inv s \<longleftrightarrow>
     (if out s = [] then i s = 0 \<and> cpc s \<in> {RegUsr1, RegUsr2, Print}
      else pc_ok (word_of_int (fst (last (out s)))) (i s) (cpc s))"

declare handler_def [counter_simps] main_step_def [counter_simps]
  kernel_send_def [counter_simps] deliver_def [counter_simps] counter_init_def [counter_simps]
  registered_def [counter_simps] insert_commute [counter_simps]

section \<open>Invariant: every step keeps it\<close>

lemma sign_ok_neg [simp]: "sign_ok (- w) \<longleftrightarrow> sign_ok w"
  by (auto simp: sign_ok_def minus_equation_iff)

lemma handler_inv: "counter_inv s \<Longrightarrow> counter_inv (handler sg s)"
  by (simp add: counter_inv_def handler_def Let_def)

lemma main_step_inv: "counter_inv s \<Longrightarrow> counter_inv (main_step s)"
  by (auto simp: counter_inv_def main_step_def split: cpc.splits)

lemma kernel_send_inv: "counter_inv s \<Longrightarrow> counter_inv (kernel_send g s)"
  by (auto simp: counter_inv_def kernel_send_def split: sig.splits)

lemma deliver_inv: "counter_inv s \<Longrightarrow> counter_inv (deliver g s)"
  by (auto simp: counter_inv_def deliver_def Let_def handler_def)

lemma cstep_inv: "counter_inv s \<Longrightarrow> counter_inv (cstep s e)"
  by (cases e) (simp_all add: main_step_inv kernel_send_inv deliver_inv)

lemma creach_inv: "creach p s \<Longrightarrow> counter_inv s"
proof (induction rule: creach.induct)
  case init
  show ?case by (simp add: counter_inv_def counter_init_def sign_ok_def)
next
  case (step s e)
  then show ?case by (simp add: cstep_inv)
qed

section \<open>Runs and reachable states\<close>

lemma crun_append: "crun s (xs @ ys) = crun (crun s xs) ys"
  by (induction xs arbitrary: s) simp_all

lemma creach_crun: "creach p s \<Longrightarrow> creach p (crun s evs)"
  by (induction evs arbitrary: s) (simp_all add: creach.step)

lemma creach_iff: "creach p s \<longleftrightarrow> (\<exists>evs. s = crun (counter_init p) evs)"
proof
  assume "creach p s"
  then show "\<exists>evs. s = crun (counter_init p) evs"
  proof (induction rule: creach.induct)
    case init
    show ?case by (rule exI [of _ "[]"]) simp
  next
    case (step s e)
    then obtain evs where "s = crun (counter_init p) evs" by blast
    then have "cstep s e = crun (counter_init p) (evs @ [e])" by (simp add: crun_append)
    then show ?case by blast
  qed
next
  assume "\<exists>evs. s = crun (counter_init p) evs"
  then show "creach p s" using creach.init creach_crun by blast
qed

lemma killed_final: "status s = Killed \<Longrightarrow> cstep s e = s"
  by (cases e) (simp_all add: kernel_send_def deliver_def)

section \<open>The handler\<close>

lemma sign_handler: "sign (handler sg s) = (if sg = signum SIGUSR2 then - sign s else sign s)"
  by (simp add: handler_def Let_def)

lemma i_handler: "i (handler sg s) = (if sg = signum SIGUSR1 then 0 else i s)"
  by (simp add: handler_def Let_def)

section \<open>The main loop: ticks\<close>

lemma crun_one_tick:
  "cpc s = Print \<Longrightarrow> status s = Running \<Longrightarrow>
     crun s [MainStep, MainStep, MainStep, MainStep] =
       s\<lparr>i := i s + sign s, out := out s @ [(sint (i s), cpid s)]\<rparr>"
  by (simp add: main_step_def)

lemma crun_ticks:
  "cpc s = Print \<Longrightarrow> status s = Running \<Longrightarrow>
     crun s (tick_events n) =
       s\<lparr>i := i s + of_nat n * sign s,
         out := out s @ map (\<lambda>k. (sint (i s + of_nat k * sign s), cpid s)) [0..<n]\<rparr>"
proof (induction n arbitrary: s)
  case 0
  then show ?case by (simp add: tick_events_def)
next
  case (Suc n)
  let ?s1 = "s\<lparr>i := i s + sign s, out := out s @ [(sint (i s), cpid s)]\<rparr>"
  have "crun s (tick_events (Suc n)) =
      crun (crun s [MainStep, MainStep, MainStep, MainStep]) (tick_events n)"
    by (simp only: tick_events_def replicate_Suc concat.simps crun_append)
  also have "\<dots> = crun ?s1 (tick_events n)"
    using Suc.prems by (simp only: crun_one_tick)
  also have "\<dots> = ?s1\<lparr>i := i ?s1 + of_nat n * sign ?s1,
         out := out ?s1 @ map (\<lambda>k. (sint (i ?s1 + of_nat k * sign ?s1), cpid ?s1)) [0..<n]\<rparr>"
    using Suc.prems by (intro Suc.IH) simp_all
  also have "\<dots> = s\<lparr>i := i s + of_nat (Suc n) * sign s,
         out := out s @ map (\<lambda>k. (sint (i s + of_nat k * sign s), cpid s)) [0..<Suc n]\<rparr>"
    by (simp add: map_upt_Suc algebra_simps del: upt_Suc)
  finally show ?case .
qed

lemma sint_steps_no_overflow:
  assumes "sign_ok sg" and "\<bar>sint w\<bar> + int n \<le> INT_MAX" and "k \<le> n"
  shows "sint (w + of_nat k * sg) = sint w + int k * sint sg"
  using assms(3)
proof (induction k)
  case 0
  then show ?case by simp
next
  case (Suc k)
  then have IH: "sint (w + of_nat k * sg) = sint w + int k * sint sg" by simp
  have "w + of_nat (Suc k) * sg = (w + of_nat k * sg) + sg"
    by (simp add: algebra_simps)
  moreover have "sint ((w + of_nat k * sg) + sg) = sint (w + of_nat k * sg) + sint sg"
    using assms(1,2) Suc.prems IH by (intro sint_add_no_overflow) (auto simp: sign_ok_def)
  ultimately show ?case using IH by (simp add: algebra_simps)
qed

section \<open>Progress of the main loop\<close>

lemma cstep_out_prefix: "prefix (out s) (out (cstep s e))"
  by (cases e) (auto simp: main_step_def kernel_send_def deliver_def handler_def Let_def
                    split: cpc.splits sig.splits)

lemma crun_out_prefix: "prefix (out s) (out (crun s es))"
proof (induction es arbitrary: s)
  case Nil
  then show ?case by simp
next
  case (Cons e es)
  then show ?case using cstep_out_prefix [of s e] by (auto intro: prefix_order.trans)
qed

lemma steps_to_print_pos: "cpc s \<notin> {RegUsr1, RegUsr2} \<Longrightarrow> 0 < steps_to_print (cpc s) \<and> steps_to_print (cpc s) \<le> 4"
  by (cases "cpc s") simp_all

lemma cstep_signal_frame:
  assumes "counter_inv s" and "status s = Running" and "cpc s \<notin> {RegUsr1, RegUsr2}"
    and "e \<noteq> MainStep" and "e \<notin> {Send SIGSTOP, Send SIGKILL}"
  shows "status (cstep s e) = Running \<and> cpc (cstep s e) = cpc s \<and> out (cstep s e) = out s"
proof -
  have "handled s = {SIGUSR1, SIGUSR2}" and "pending s \<subseteq> {SIGUSR1, SIGUSR2}"
    using assms(1,3) by (cases "cpc s"; simp add: counter_inv_def)+
  then show ?thesis using assms(2,4,5)
    by (cases e) (auto simp: kernel_send_def deliver_def handler_def Let_def split: sig.splits)
qed

lemma main_step_progress:
  assumes "cpc s \<notin> {RegUsr1, RegUsr2, Print}"
  shows "cpc (main_step s) \<notin> {RegUsr1, RegUsr2} \<and> out (main_step s) = out s
         \<and> status (main_step s) = status s \<and> Suc (steps_to_print (cpc (main_step s))) = steps_to_print (cpc s)"
  using assms by (cases "cpc s") (simp_all add: main_step_def)

lemma crun_prints:
  "counter_inv s \<Longrightarrow> status s = Running \<Longrightarrow> cpc s \<notin> {RegUsr1, RegUsr2} \<Longrightarrow>
     \<forall>e\<in>set es. e \<notin> {Send SIGSTOP, Send SIGKILL} \<Longrightarrow> steps_to_print (cpc s) \<le> count_list es MainStep \<Longrightarrow>
     length (out s) < length (out (crun s es))"
proof (induction es arbitrary: s)
  case Nil
  then show ?case using steps_to_print_pos [of s] by simp
next
  case (Cons e es)
  show ?case
  proof (cases "e = MainStep")
    case True
    show ?thesis
    proof (cases "cpc s = Print")
      case True
      then have "out (cstep s e) = out s @ [(sint (i s), cpid s)]"
        using \<open>e = MainStep\<close> Cons.prems(2) by (simp add: main_step_def)
      then show ?thesis using crun_out_prefix [of "cstep s e" es] by (auto dest: prefix_length_le)
    next
      case False
      then have "cpc (cstep s e) \<notin> {RegUsr1, RegUsr2} \<and> out (cstep s e) = out s
                 \<and> status (cstep s e) = Running
                 \<and> Suc (steps_to_print (cpc (cstep s e))) = steps_to_print (cpc s)"
        using main_step_progress [of s] \<open>e = MainStep\<close> Cons.prems(2,3) by simp
      moreover have "counter_inv (cstep s e)" using Cons.prems(1) by (rule cstep_inv)
      ultimately show ?thesis using Cons.IH [of "cstep s e"] Cons.prems(4,5) \<open>e = MainStep\<close> by simp
    qed
  next
    case False
    then have "status (cstep s e) = Running \<and> cpc (cstep s e) = cpc s \<and> out (cstep s e) = out s"
      using cstep_signal_frame [OF Cons.prems(1-3)] Cons.prems(4) by simp
    moreover have "counter_inv (cstep s e)" using Cons.prems(1) by (rule cstep_inv)
    ultimately show ?thesis using Cons.IH [of "cstep s e"] Cons.prems(3-5) False by simp
  qed
qed

section \<open>Printed values\<close>

lemma cstep_out_Print:
  "out (cstep s e) \<noteq> out s \<Longrightarrow> cpc s = Print \<and> out (cstep s e) = out s @ [(sint (i s), cpid s)]"
  by (cases e) (auto simp: main_step_def kernel_send_def deliver_def handler_def Let_def
                    split: cpc.splits sig.splits if_splits)

lemma out_inv_reset:
  "out_inv s \<Longrightarrow> cpc s' = cpc s \<Longrightarrow> out s' = out s \<Longrightarrow> i s' \<in> {i s, 0} \<Longrightarrow> out_inv s'"
  by (cases "cpc s") (auto simp: out_inv_def split: if_splits)

lemma cstep_out_inv:
  assumes "counter_inv s" and "out_inv s"
  shows "out_inv (cstep s e)"
proof (cases e)
  case MainStep
  have "sign s = 1 \<or> sign s = - 1" using assms(1) by (simp add: counter_inv_def sign_ok_def)
  then show ?thesis using assms(2) MainStep
    by (cases "cpc s") (auto simp: out_inv_def main_step_def split: if_splits)
next
  case (Send g)
  have "i (kernel_send g s) = i s \<and> cpc (kernel_send g s) = cpc s \<and> out (kernel_send g s) = out s"
    by (auto simp: kernel_send_def split: sig.splits)
  then show ?thesis using out_inv_reset [OF assms(2)] Send by simp
next
  case (Deliver g)
  have "i (deliver g s) \<in> {i s, 0} \<and> cpc (deliver g s) = cpc s \<and> out (deliver g s) = out s"
    by (simp add: deliver_def handler_def Let_def)
  then show ?thesis using out_inv_reset [OF assms(2)] Deliver by simp
qed

lemma creach_out_inv: "creach p s \<Longrightarrow> out_inv s"
proof (induction rule: creach.induct)
  case init
  then show ?case by (simp add: out_inv_def counter_init_def)
next
  case (step s e)
  then show ?case using cstep_out_inv [OF creach_inv [OF step.hyps]] by blast
qed

section \<open>Properties of the counter process\<close>

text \<open>
  C1. In every state reachable from the start of \<^verbatim>\<open>main\<close>, under any
  interleaving of loop statements with signals sent and delivered, the direction
  \<^verbatim>\<open>sign\<close> is \<open>1\<close> or \<open>-1\<close>.
\<close>

theorem creach_sign_ok: "creach p s \<Longrightarrow> sign s = 1 \<or> sign s = - 1"
  using creach_inv [of p s] by (simp add: counter_inv_def sign_ok_def)

theorem creach_sign_ok_witness:
  "creach 7 (crun (counter_init 7) [MainStep, MainStep, Send SIGUSR2, Deliver SIGUSR2])
   \<and> sign (crun (counter_init 7) [MainStep, MainStep, Send SIGUSR2, Deliver SIGUSR2]) = - 1"
proof -
  have r: "creach 7 (crun (counter_init 7) [MainStep, MainStep, Send SIGUSR2, Deliver SIGUSR2])"
    using creach_iff by blast
  from creach_sign_ok [OF r] r show ?thesis by (simp add: counter_simps)
qed

text \<open>
  C3. When \<^verbatim>\<open>SIGUSR1\<close> is handled, the next line \<^verbatim>\<open>printf\<close> prints depends
  on where the main loop was: before \<^verbatim>\<open>printf\<close> or in \<^verbatim>\<open>sleep\<close> it prints
  \<open>0\<close>; before the load of \<^verbatim>\<open>i += sign\<close> it prints the direction; between the
  load and the store of \<^verbatim>\<open>i += sign\<close> the store overwrites the reset and the
  old value plus the direction is printed: the reset is lost.
\<close>

theorem reset_next_print:
  assumes "counter_inv s" and "status s = Running" and "SIGUSR1 \<in> pending s"
    and "cpc s \<notin> {RegUsr1, RegUsr2}"
  shows "out (crun s (Deliver SIGUSR1 # replicate (steps_to_print (cpc s)) MainStep)) =
           out s @ [(printed_after_reset s, cpid s)]"
  using assms
  by (cases "cpc s")
     (auto simp: counter_inv_def deliver_def handler_def main_step_def Let_def eval_nat_numeral)

theorem reset_lost_witness:
  "out (crun (crun (registered 7)
               [MainStep, MainStep, MainStep, MainStep, MainStep, MainStep, Send SIGUSR1])
          [Deliver SIGUSR1, MainStep, MainStep, MainStep]) = [(0, 7), (1, 7), (2, 7)]"
proof -
  let ?s = "crun (registered 7)
              [MainStep, MainStep, MainStep, MainStep, MainStep, MainStep, Send SIGUSR1]"
  have s: "cpc ?s = Store 2" "out ?s = [(0, 7), (1, 7)]" "cpid ?s = 7"
    by (simp_all add: counter_simps)
  have h: "counter_inv ?s" "status ?s = Running" "SIGUSR1 \<in> pending ?s"
      "cpc ?s \<notin> {RegUsr1, RegUsr2}"
    by (simp_all add: counter_simps counter_inv_def sign_ok_def)
  from reset_next_print [OF h] s show ?thesis by (simp add: eval_nat_numeral)
qed

text \<open>
  C5. Handling a sequence of signals changes the direction exactly when the
  sequence holds an odd number of \<^verbatim>\<open>SIGUSR2\<close>, whatever \<^verbatim>\<open>SIGUSR1\<close> are
  interleaved with them.
\<close>

theorem toggle_parity:
  "sign (fold handler gs s) =
     (if even (count_list gs (signum SIGUSR2)) then sign s else - sign s)"
  by (induction gs arbitrary: s) (simp_all add: sign_handler)

text \<open>
  C7. \<open>n\<close> undisturbed loop iterations from \<^verbatim>\<open>printf\<close> print \<open>n\<close> lines whose
  values step by the direction: \<open>i, i + sign, \<dots>, i + (n - 1) * sign\<close>, as long as
  these stay within the range of \<^verbatim>\<open>int\<close>.
\<close>

theorem ticks_printed:
  assumes "cpc s = Print" and "status s = Running" and "sign_ok (sign s)"
    and "\<bar>sint (i s)\<bar> + int n \<le> INT_MAX"
  shows "out (crun s (tick_events n)) =
           out s @ map (\<lambda>k. (sint (i s) + int k * sint (sign s), cpid s)) [0..<n]"
proof -
  have "\<And>k. k \<in> set [0..<n] \<Longrightarrow>
          sint (i s + of_nat k * sign s) = sint (i s) + int k * sint (sign s)"
    using assms(3,4) by (intro sint_steps_no_overflow) auto
  then show ?thesis
    using crun_ticks [OF assms(1,2), of n] by simp
qed

theorem ticks_printed_witness:
  "out (crun (registered 7) (tick_events 3)) = [(0, 7), (1, 7), (2, 7)]"
proof -
  have h: "cpc (registered 7) = Print" "status (registered 7) = Running"
      "sign_ok (sign (registered 7))" "\<bar>sint (i (registered 7))\<bar> + int 3 \<le> INT_MAX"
    by (simp_all add: counter_simps sign_ok_def)
  from ticks_printed [OF h] show ?thesis by (simp add: counter_simps upt_rec)
qed

text \<open>
  C11. The two branches of the handler touch different variables, so handling
  \<^verbatim>\<open>SIGUSR1\<close> and \<^verbatim>\<open>SIGUSR2\<close> in either order gives the same state.
\<close>

theorem handler_commute: "handler a (handler b s) = handler b (handler a s)"
  by (simp add: handler_def Let_def)

text \<open>
  C12. When a signal pending at a reachable running counter is delivered, it
  terminates the process (the default action) exactly when \<^verbatim>\<open>main\<close> has not yet
  installed its handler: before the first \<^verbatim>\<open>signal\<close> call any signal kills, between
  the two calls (line 30) only \<^verbatim>\<open>SIGUSR2\<close> kills, and afterwards none does.
\<close>

theorem early_signal_kills:
  assumes "creach p s" and "status s = Running" and "g \<in> pending s"
  shows "status (deliver g s) = Killed \<longleftrightarrow> cpc s = RegUsr1 \<or> (cpc s = RegUsr2 \<and> g = SIGUSR2)"
proof -
  have "counter_inv s" using assms(1) by (rule creach_inv)
  then have "handled s = handled_at (cpc s)" "g \<in> {SIGUSR1, SIGUSR2}"
    using assms(3) by (auto simp: counter_inv_def)
  then show ?thesis using assms(2,3)
    by (cases "cpc s") (auto simp: deliver_def handler_def Let_def)
qed

theorem early_signal_kills_witness:
  "cpc (crun (counter_init 7) [MainStep, Send SIGUSR2]) = RegUsr2
   \<and> status (deliver SIGUSR2 (crun (counter_init 7) [MainStep, Send SIGUSR2])) = Killed"
proof -
  let ?s = "crun (counter_init 7) [MainStep, Send SIGUSR2]"
  have r: "creach 7 ?s" using creach_iff by blast
  have h: "status ?s = Running" "SIGUSR2 \<in> pending ?s" "cpc ?s = RegUsr2"
    by (simp_all add: counter_simps)
  from early_signal_kills [OF r h(1,2)] h(3) show ?thesis by simp
qed

text \<open>
  C20. Liveness of the main loop: once both handlers are installed, a running
  counter prints a new line within four statements of its loop, whatever
  signals other than \<^verbatim>\<open>SIGSTOP\<close> and \<^verbatim>\<open>SIGKILL\<close> are sent and delivered
  in between.
\<close>

theorem counter_prints_eventually:
  assumes "creach p s" and "status s = Running" and "cpc s \<notin> {RegUsr1, RegUsr2}"
    and "\<forall>e\<in>set es. e \<notin> {Send SIGSTOP, Send SIGKILL}" and "4 \<le> count_list es MainStep"
  shows "length (out s) < length (out (crun s es))"
  using crun_prints [OF creach_inv [OF assms(1)] assms(2-4)] steps_to_print_pos [OF assms(3)] assms(5)
  by simp

theorem counter_prints_eventually_witness:
  "length (out (registered 7)) <
     length (out (crun (registered 7) [Send SIGUSR2, MainStep, Deliver SIGUSR2, Send SIGUSR1, MainStep,
                                      MainStep, Send SIGCONT, Deliver SIGUSR1, MainStep]))"
proof -
  have "creach 7 (registered 7)" unfolding registered_def by (rule creach_crun [OF creach.init])
  moreover have "status (registered 7) = Running" "cpc (registered 7) = Print"
    by (simp_all add: registered_def counter_simps)
  ultimately show ?thesis
    using counter_prints_eventually [of 7 "registered 7" "[Send SIGUSR2, MainStep, Deliver SIGUSR2, Send SIGUSR1,
             MainStep, MainStep, Send SIGCONT, Deliver SIGUSR1, MainStep]"]
    by simp
qed

text \<open>
  C21. The printed values of a reachable counter start at \<open>0\<close>, and each
  next printed value is the previous one plus or minus one, computed in 32-bit
  two's complement (so \<^verbatim>\<open>INT_MAX\<close> is followed by \<^verbatim>\<open>INT_MIN\<close>),
  or, after a \<^verbatim>\<open>SIGUSR1\<close> reset, \<open>0\<close>, \<open>1\<close> or \<open>-1\<close>.
\<close>

theorem creach_out_steps:
  "creach p s \<Longrightarrow> (out s \<noteq> [] \<longrightarrow> fst (hd (out s)) = 0)
     \<and> successively (\<lambda>v v'. v' \<in> {sint (word_of_int v + 1 :: sword), sint (word_of_int v - 1 :: sword), 0, 1, - 1})
         (map fst (out s))"
proof (induction rule: creach.induct)
  case init
  then show ?case by (simp add: counter_init_def)
next
  case (step s e)
  show ?case
  proof (cases "out (cstep s e) = out s")
    case True
    then show ?thesis using step.IH by simp
  next
    case False
    then have pr: "cpc s = Print" and o: "out (cstep s e) = out s @ [(sint (i s), cpid s)]"
      using cstep_out_Print by blast+
    have inv: "out_inv s" using step.hyps by (rule creach_out_inv)
    show ?thesis
    proof (cases "out s = []")
      case True
      then show ?thesis using inv o by (simp add: out_inv_def)
    next
      case ne: False
      let ?w = "word_of_int (fst (last (out s))) :: sword"
      have "i s \<in> {?w + 1, ?w - 1, 0, 1, - 1}" using inv pr ne by (simp add: out_inv_def)
      then have "sint (i s) \<in> {sint (?w + 1), sint (?w - 1), 0, 1, - 1}" by auto
      then show ?thesis using step.IH o ne
        by (simp add: successively_append_iff last_map hd_append)
    qed
  qed
qed

theorem creach_out_steps_witness:
  "map fst (out (crun (registered 7) [MainStep, MainStep, MainStep, MainStep, Send SIGUSR2,
      Deliver SIGUSR2, MainStep, MainStep, MainStep, MainStep, MainStep])) = [0, 1, 0]
   \<and> successively (\<lambda>v v'. v' \<in> {sint (word_of_int v + 1 :: sword), sint (word_of_int v - 1 :: sword), 0, 1, - 1})
       (map fst (out (crun (registered 7) [MainStep, MainStep, MainStep, MainStep, Send SIGUSR2,
          Deliver SIGUSR2, MainStep, MainStep, MainStep, MainStep, MainStep])))"
proof -
  let ?s = "crun (registered 7) [MainStep, MainStep, MainStep, MainStep, Send SIGUSR2,
      Deliver SIGUSR2, MainStep, MainStep, MainStep, MainStep, MainStep]"
  have r: "creach 7 ?s"
    unfolding registered_def crun_append [symmetric] by (rule creach_crun [OF creach.init])
  have o: "map fst (out ?s) = [0, 1, 0]" by (simp add: counter_simps)
  show ?thesis using creach_out_steps [OF r] o by simp
qed
end
