(* ===== verification/CounterLoad.thy ===== *)
theory CounterLoad
  imports Counter
begin

text \<open>
  The statement \<^verbatim>\<open>i += sign\<close> of \<^verbatim>\<open>counter.c\<close> line 37 reads two
  \<^verbatim>\<open>volatile\<close> objects, and C leaves the order of the two reads unspecified.
  \<open>Counter\<close> models the statement as one load of both followed by the store.
  This theory models the two reads separately, in either order, with any
  signals delivered between them, and shows that each such execution equals a
  run of the one-load model in which each delivery is moved before or after the
  load. So the one-load model loses no behaviour of the compiled code.
\<close>

section \<open>The two reads of \<^verbatim>\<open>i += sign\<close>\<close>

text \<open>\<^verbatim>\<open>sign\<close> read first, the deliveries \<open>ws\<close>, then \<^verbatim>\<open>i\<close> read and the sum stored next.\<close>

definition load_sign_first :: "cstate \<Rightarrow> cevent list \<Rightarrow> cstate" where
  "load_sign_first s ws = (let sg = sign s; s' = crun s ws in s'\<lparr>cpc := Store (i s' + sg)\<rparr>)"

text \<open>\<^verbatim>\<open>i\<close> read first, the deliveries \<open>ws\<close>, then \<^verbatim>\<open>sign\<close> read.\<close>

definition load_i_first :: "cstate \<Rightarrow> cevent list \<Rightarrow> cstate" where
  "load_i_first s ws = (let v = i s; s' = crun s ws in s'\<lparr>cpc := Store (v + sign s')\<rparr>)"

section \<open>Deliveries of the two handled signals commute\<close>

definition handlers_on :: "cstate \<Rightarrow> bool" where
  "handlers_on s \<longleftrightarrow> status s = Running \<and> handled s = {SIGUSR1, SIGUSR2} \<and> pending s \<subseteq> {SIGUSR1, SIGUSR2}"

lemma deliver_handlers_on: "handlers_on s \<Longrightarrow> handlers_on (deliver g s)"
  by (cases "g \<in> pending s") (auto simp: handlers_on_def deliver_def handler_def Let_def)

lemma deliver_commute:
  "handlers_on s \<Longrightarrow> deliver SIGUSR2 (deliver SIGUSR1 s) = deliver SIGUSR1 (deliver SIGUSR2 s)"
  by (cases "SIGUSR1 \<in> pending s"; cases "SIGUSR2 \<in> pending s")
     (simp_all add: handlers_on_def deliver_def handler_def Let_def Diff_insert [symmetric] insert_commute)

lemma crun_deliver_usr1:
  "\<forall>e\<in>set us. e = Deliver SIGUSR1 \<Longrightarrow> handlers_on s \<Longrightarrow>
     crun (deliver SIGUSR2 s) us = deliver SIGUSR2 (crun s us) \<and> handlers_on (crun s us)"
proof (induction us arbitrary: s)
  case Nil
  then show ?case by simp
next
  case (Cons e us)
  have e: "e = Deliver SIGUSR1" using Cons.prems(1) by simp
  have h: "handlers_on (deliver SIGUSR1 s)" using Cons.prems(2) by (rule deliver_handlers_on)
  have ih: "crun (deliver SIGUSR2 (deliver SIGUSR1 s)) us = deliver SIGUSR2 (crun (deliver SIGUSR1 s) us)
            \<and> handlers_on (crun (deliver SIGUSR1 s) us)"
    using Cons.IH [OF _ h] Cons.prems(1) by simp
  have "crun (deliver SIGUSR2 s) (e # us) = crun (deliver SIGUSR2 (deliver SIGUSR1 s)) us"
    using e deliver_commute [OF Cons.prems(2)] by simp
  with ih e show ?case by simp
qed

lemma crun_handlers_on:
  "\<forall>e\<in>set ws. \<exists>g. e = Deliver g \<Longrightarrow> handlers_on s \<Longrightarrow> handlers_on (crun s ws)"
proof (induction ws arbitrary: s)
  case Nil
  then show ?case by simp
next
  case (Cons e ws)
  then obtain g where "e = Deliver g" by auto
  then show ?case using Cons deliver_handlers_on [OF Cons.prems(2), of g] by simp
qed

lemma crun_partition:
  "set ws \<subseteq> {Deliver SIGUSR1, Deliver SIGUSR2} \<Longrightarrow> handlers_on s \<Longrightarrow>
     crun s ws = crun s (filter (\<lambda>e. e = Deliver SIGUSR1) ws @ filter (\<lambda>e. e = Deliver SIGUSR2) ws)"
proof (induction ws arbitrary: s)
  case Nil
  then show ?case by simp
next
  case (Cons e ws)
  have h': "handlers_on (deliver g s)" for g using Cons.prems(2) by (rule deliver_handlers_on)
  show ?case
  proof (cases "e = Deliver SIGUSR1")
    case True
    then show ?thesis using Cons.IH [OF _ h' [of SIGUSR1]] Cons.prems(1) by simp
  next
    case False
    then have e: "e = Deliver SIGUSR2" using Cons.prems(1) by simp
    let ?us = "filter (\<lambda>e. e = Deliver SIGUSR1) ws" and ?vs = "filter (\<lambda>e. e = Deliver SIGUSR2) ws"
    have "crun (deliver SIGUSR2 s) ws = crun (crun (deliver SIGUSR2 s) ?us) ?vs"
      using Cons.IH [OF _ h' [of SIGUSR2]] Cons.prems(1) by (simp add: crun_append)
    moreover have "crun (deliver SIGUSR2 s) ?us = deliver SIGUSR2 (crun s ?us)"
      using crun_deliver_usr1 [of ?us s] Cons.prems(2) by simp
    ultimately show ?thesis using e by (simp add: crun_append)
  qed
qed

lemma signum_handled_iff [simp]: "signum g = 10 \<longleftrightarrow> g = SIGUSR1" "signum g = 12 \<longleftrightarrow> g = SIGUSR2"
  by (cases g; simp)+

lemma deliver_frame:
  "deliver g (s\<lparr>cpc := c\<rparr>) = (deliver g s)\<lparr>cpc := c\<rparr> \<and> cpc (deliver g s) = cpc s
   \<and> (g \<noteq> SIGUSR2 \<longrightarrow> sign (deliver g s) = sign s) \<and> (g \<noteq> SIGUSR1 \<longrightarrow> i (deliver g s) = i s)"
  by (simp add: deliver_def handler_def Let_def)

lemma crun_deliveries_frame:
  "\<forall>e\<in>set ws. e = Deliver g \<Longrightarrow>
     crun (s\<lparr>cpc := c\<rparr>) ws = (crun s ws)\<lparr>cpc := c\<rparr> \<and> cpc (crun s ws) = cpc s
     \<and> (g \<noteq> SIGUSR2 \<longrightarrow> sign (crun s ws) = sign s) \<and> (g \<noteq> SIGUSR1 \<longrightarrow> i (crun s ws) = i s)"
proof (induction ws arbitrary: s)
  case Nil
  then show ?case by simp
next
  case (Cons e ws)
  then show ?case using deliver_frame [where g = g and s = s and c = c] Cons.IH [of "deliver g s"] by simp
qed

lemma crun_usr2_usr1:
  "\<forall>e\<in>set vs. e = Deliver SIGUSR2 \<Longrightarrow> \<forall>e\<in>set us. e = Deliver SIGUSR1 \<Longrightarrow> handlers_on s \<Longrightarrow>
     crun (crun s vs) us = crun (crun s us) vs"
proof (induction vs arbitrary: s)
  case Nil
  then show ?case by simp
next
  case (Cons e vs)
  have h: "handlers_on (deliver SIGUSR2 s)" using Cons.prems(3) by (rule deliver_handlers_on)
  have "crun (deliver SIGUSR2 s) us = deliver SIGUSR2 (crun s us)"
    using crun_deliver_usr1 [OF Cons.prems(2,3)] by simp
  then show ?case using Cons.IH [OF _ Cons.prems(2) h] Cons.prems(1) by simp
qed

section \<open>Equivalence with the one-load model\<close>

text \<open>
  C26. The two reads of \<^verbatim>\<open>i += sign\<close>, in either order, with any deliveries
  of \<^verbatim>\<open>SIGUSR1\<close> and \<^verbatim>\<open>SIGUSR2\<close> between them, end in the same state as
  a run of the one-load model of \<open>Counter\<close>. When \<^verbatim>\<open>sign\<close> is read first,
  the resets move before the load and the reversals after it; when \<^verbatim>\<open>i\<close> is
  read first, the other way round.
\<close>

theorem two_loads_equiv:
  assumes "cpc s = Load" and "handlers_on s" and "set ws \<subseteq> {Deliver SIGUSR1, Deliver SIGUSR2}"
  shows "load_sign_first s ws = crun s (filter (\<lambda>e. e = Deliver SIGUSR1) ws @ MainStep # filter (\<lambda>e. e = Deliver SIGUSR2) ws)
       \<and> load_i_first s ws = crun s (filter (\<lambda>e. e = Deliver SIGUSR2) ws @ MainStep # filter (\<lambda>e. e = Deliver SIGUSR1) ws)"
proof -
  let ?us = "filter (\<lambda>e. e = Deliver SIGUSR1) ws" and ?vs = "filter (\<lambda>e. e = Deliver SIGUSR2) ws"
  have us: "\<forall>e\<in>set ?us. e = Deliver SIGUSR1" and vs: "\<forall>e\<in>set ?vs. e = Deliver SIGUSR2" by simp_all
  have ws: "crun s ws = crun (crun s ?us) ?vs"
    using crun_partition [OF assms(3,2)] by (simp add: crun_append)
  let ?a = "crun s ?us" and ?b = "crun s ?vs"
  have fa: "cpc ?a = Load \<and> sign ?a = sign s" and fb: "cpc ?b = Load \<and> i ?b = i s"
    using crun_deliveries_frame [OF us, where s = s] crun_deliveries_frame [OF vs, where s = s] assms(1)
    by simp_all
  have ha: "status ?a = Running" and hb: "status ?b = Running"
    using crun_handlers_on [of ?us s] crun_handlers_on [of ?vs s] assms(2) by (auto simp: handlers_on_def)
  have swap: "crun s ws = crun ?b ?us"
    using ws crun_usr2_usr1 [OF vs us assms(2)] by simp
  have "crun s (?us @ MainStep # ?vs) = crun (?a\<lparr>cpc := Store (i ?a + sign ?a)\<rparr>) ?vs"
    using fa ha by (simp add: crun_append main_step_def)
  also have "\<dots> = (crun ?a ?vs)\<lparr>cpc := Store (i ?a + sign ?a)\<rparr>"
    using crun_deliveries_frame [OF vs, where s = ?a] by simp
  finally have 1: "load_sign_first s ws = crun s (?us @ MainStep # ?vs)"
    using ws fa crun_deliveries_frame [OF vs, where s = ?a] by (simp add: load_sign_first_def Let_def)
  have "crun s (?vs @ MainStep # ?us) = crun (?b\<lparr>cpc := Store (i ?b + sign ?b)\<rparr>) ?us"
    using fb hb by (simp add: crun_append main_step_def)
  also have "\<dots> = (crun ?b ?us)\<lparr>cpc := Store (i ?b + sign ?b)\<rparr>"
    using crun_deliveries_frame [OF us, where s = ?b] by simp
  finally have 2: "load_i_first s ws = crun s (?vs @ MainStep # ?us)"
    using swap fb crun_deliveries_frame [OF us, where s = ?b] by (simp add: load_i_first_def Let_def)
  from 1 2 show ?thesis by simp
qed

theorem two_loads_equiv_witness:
  "load_sign_first (crun (registered 7) [MainStep, Send SIGUSR1, Send SIGUSR2]) [Deliver SIGUSR2, Deliver SIGUSR1]
     = crun (crun (registered 7) [MainStep, Send SIGUSR1, Send SIGUSR2]) [Deliver SIGUSR1, MainStep, Deliver SIGUSR2]
   \<and> load_i_first (crun (registered 7) [MainStep, Send SIGUSR1, Send SIGUSR2]) [Deliver SIGUSR2, Deliver SIGUSR1]
     = crun (crun (registered 7) [MainStep, Send SIGUSR1, Send SIGUSR2]) [Deliver SIGUSR2, MainStep, Deliver SIGUSR1]"
proof -
  let ?s = "crun (registered 7) [MainStep, Send SIGUSR1, Send SIGUSR2]"
  have "cpc ?s = Load" "handlers_on ?s"
    by (simp_all add: registered_def counter_simps handlers_on_def)
  from two_loads_equiv [OF this, of "[Deliver SIGUSR2, Deliver SIGUSR1]"] show ?thesis by simp
qed

end
