(* ===== verification/CounterRefine.thy ===== *)
theory CounterRefine
  imports CounterLoad
begin

text \<open>
  The counter with the two reads of \<^verbatim>\<open>i += sign\<close> as separate steps of the
  whole program: a run may read \<^verbatim>\<open>sign\<close> or \<^verbatim>\<open>i\<close> first, and any signal may
  be sent or delivered, and the process stopped, resumed or killed, between the
  two reads. The theorem of this theory is a trace-level refinement: every state
  this finer model reaches with no read pending is reached by the one-load
  model \<open>creach\<close> of \<open>Counter\<close>. The proof builds, for each window between the
  two reads, a run of the one-load model that ends in the same state.
\<close>

section \<open>The counter with two reads\<close>

datatype fread = ReadSign sword | ReadI sword

inductive freach :: "pid \<Rightarrow> cstate \<times> fread option \<Rightarrow> bool" for p where
  init: "freach p (counter_init p, None)"
| main: "freach p (s, None) \<Longrightarrow> cpc s \<noteq> Load \<Longrightarrow> freach p (cstep s MainStep, None)"
| read_sign: "freach p (s, None) \<Longrightarrow> cpc s = Load \<Longrightarrow> status s = Running \<Longrightarrow>
    freach p (s, Some (ReadSign (sign s)))"
| read_i: "freach p (s, None) \<Longrightarrow> cpc s = Load \<Longrightarrow> status s = Running \<Longrightarrow>
    freach p (s, Some (ReadI (i s)))"
| then_i: "freach p (s, Some (ReadSign sg)) \<Longrightarrow> status s = Running \<Longrightarrow>
    freach p (s\<lparr>cpc := Store (i s + sg)\<rparr>, None)"
| then_sign: "freach p (s, Some (ReadI v)) \<Longrightarrow> status s = Running \<Longrightarrow>
    freach p (s\<lparr>cpc := Store (v + sign s)\<rparr>, None)"
| signal: "freach p (s, h) \<Longrightarrow> e \<noteq> MainStep \<Longrightarrow> freach p (cstep s e, h)"

text \<open>
  What a window of signal events can do to the state the first read saw:
  reset \<^verbatim>\<open>i\<close>, flip \<^verbatim>\<open>sign\<close>, change the pending set, and only consume a
  pending \<^verbatim>\<open>SIGUSR1\<close> by resetting \<^verbatim>\<open>i\<close> (or by killing the process).
\<close>

definition win :: "cstate \<Rightarrow> cstate \<Rightarrow> bool" where
  "win s r \<longleftrightarrow> cpc r = cpc s \<and> out r = out s \<and> handled r = handled s \<and> cpid r = cpid s
     \<and> (i r = i s \<or> i r = 0) \<and> (sign r = sign s \<or> sign r = - sign s) \<and> pending r \<subseteq> {SIGUSR1, SIGUSR2}
     \<and> (SIGUSR1 \<in> pending s \<longrightarrow> SIGUSR1 \<notin> pending r \<longrightarrow> i r = 0 \<or> status r = Killed)"

text \<open>
  The one-load run that replaces a window: a reset (if \<^verbatim>\<open>i\<close> ends at
  \<open>0\<close>), one or two reversals (to end at the window's \<^verbatim>\<open>sign\<close> and with
  \<^verbatim>\<open>SIGUSR2\<close> consumed), and the signals that are left pending sent again.
\<close>

definition es_reset :: "cstate \<Rightarrow> cevent list" where
  "es_reset r = (if i r = 0 then [Send SIGUSR1, Deliver SIGUSR1] else [])"

definition es_flip :: "cstate \<Rightarrow> cstate \<Rightarrow> cevent list" where
  "es_flip s r = (if sign r = sign s then [Send SIGUSR2, Deliver SIGUSR2, Send SIGUSR2, Deliver SIGUSR2]
                  else [Send SIGUSR2, Deliver SIGUSR2])"

definition es_fix :: "cstate \<Rightarrow> cevent list" where
  "es_fix r = (if SIGUSR1 \<in> pending r then [Send SIGUSR1] else []) @ (if SIGUSR2 \<in> pending r then [Send SIGUSR2] else [])"

text \<open>The value a pending first read holds, as read in the state \<open>s0\<close> where it happened.\<close>

fun read_of :: "fread \<Rightarrow> cstate \<Rightarrow> bool" where
  "read_of (ReadSign sg) s0 \<longleftrightarrow> sg = sign s0"
| "read_of (ReadI v) s0 \<longleftrightarrow> v = i s0"

section \<open>Windows between the two reads\<close>

lemma win_refl: "pending s \<subseteq> {SIGUSR1, SIGUSR2} \<Longrightarrow> win s s"
  by (simp add: win_def)

lemma win_kernel_send: "win s r \<Longrightarrow> win s (kernel_send g r)"
  by (cases g) (auto simp: win_def kernel_send_def)

lemma win_deliver:
  assumes "win s r" and "handled s = {SIGUSR1, SIGUSR2}"
  shows "win s (deliver g r)"
proof (cases "status r = Running \<and> g \<in> pending r")
  case False
  then have "deliver g r = r" unfolding deliver_def by auto
  then show ?thesis using assms(1) by simp
next
  case True
  have hr: "handled r = {SIGUSR1, SIGUSR2}" and pr: "pending r \<subseteq> {SIGUSR1, SIGUSR2}"
    using assms by (simp_all add: win_def)
  then have "g = SIGUSR1 \<or> g = SIGUSR2" using True by auto
  then show ?thesis
  proof
    assume g: "g = SIGUSR1"
    then have "deliver g r = r\<lparr>pending := pending r - {SIGUSR1}, i := 0\<rparr>"
      using True hr by (simp add: deliver_def handler_def)
    then show ?thesis using assms(1) by (auto simp: win_def)
  next
    assume g: "g = SIGUSR2"
    then have "deliver g r = r\<lparr>pending := pending r - {SIGUSR2}, sign := - sign r\<rparr>"
      using True hr by (simp add: deliver_def handler_def)
    then show ?thesis using assms(1) by (auto simp: win_def)
  qed
qed

lemma win_crun: "\<forall>e\<in>set ws. e \<noteq> MainStep \<Longrightarrow> win s r \<Longrightarrow> handled s = {SIGUSR1, SIGUSR2} \<Longrightarrow> win s (crun r ws)"
proof (induction ws arbitrary: r)
  case Nil
  then show ?case by simp
next
  case (Cons e ws)
  have "win s (cstep r e)"
    using Cons.prems by (cases e) (simp_all add: win_kernel_send win_deliver)
  then show ?case using Cons by simp
qed

section \<open>Effect of the replacing blocks\<close>

lemma crun_es_reset:
  "status x = Running \<Longrightarrow> SIGUSR1 \<in> handled x \<Longrightarrow>
     crun x (es_reset r) = (if i r = 0 then x\<lparr>i := 0, pending := pending x - {SIGUSR1}\<rparr> else x)"
  by (simp add: es_reset_def kernel_send_def deliver_def handler_def Let_def insert_Diff_if)

lemma crun_es_flip:
  "status x = Running \<Longrightarrow> SIGUSR2 \<in> handled x \<Longrightarrow>
     crun x (es_flip s r) =
       x\<lparr>sign := (if sign r = sign s then sign x else - sign x), pending := pending x - {SIGUSR2}\<rparr>"
  by (simp add: es_flip_def kernel_send_def deliver_def handler_def Let_def insert_Diff_if)

lemma crun_es_fix:
  "status x = Running \<Longrightarrow> crun x (es_fix r) = x\<lparr>pending := pending x \<union> (pending r \<inter> {SIGUSR1, SIGUSR2})\<rparr>"
  by (auto simp: es_fix_def kernel_send_def crun_append intro!: cstate.equality)

lemma main_step_Load: "cpc x = Load \<Longrightarrow> main_step x = x\<lparr>cpc := Store (i x + sign x)\<rparr>"
  by (simp add: main_step_def)

lemma win_pending_eq:
  assumes "win s r" and "status r = Running" and "pending s \<subseteq> {SIGUSR1, SIGUSR2}"
  shows "(if i r = 0 then pending s - {SIGUSR1} else pending s) - {SIGUSR2} \<union> (pending r \<inter> {SIGUSR1, SIGUSR2})
         = pending r"
  using assms by (auto simp: win_def)

lemma win_fields:
  assumes "win s r" and "status r = Running" and "status s = Running"
  shows "cpc r = cpc s \<and> out r = out s \<and> handled r = handled s \<and> cpid r = cpid s
         \<and> (if i r = 0 then 0 else i s) = i r \<and> (if sign r = sign s then sign s else - sign s) = sign r"
  using assms by (auto simp: win_def)

text \<open>A window after reading \<^verbatim>\<open>sign\<close> first is replaced by reset, load, reversals.\<close>

lemma window_sign_first:
  assumes hs: "handlers_on s" and l: "cpc s = Load" and w: "win s r" and rr: "status r = Running"
  shows "crun s (es_reset r @ MainStep # es_flip s r @ es_fix r) = r\<lparr>cpc := Store (i r + sign s)\<rparr>"
proof -
  have s: "status s = Running" "SIGUSR1 \<in> handled s" "SIGUSR2 \<in> handled s" "pending s \<subseteq> {SIGUSR1, SIGUSR2}"
    using hs by (simp_all add: handlers_on_def)
  have f: "cpc r = cpc s \<and> out r = out s \<and> handled r = handled s \<and> cpid r = cpid s
         \<and> (if i r = 0 then 0 else i s) = i r \<and> (if sign r = sign s then sign s else - sign s) = sign r"
    by (rule win_fields [OF w rr s(1)])
  have "crun s (es_reset r @ MainStep # es_flip s r @ es_fix r)
        = s\<lparr>i := if i r = 0 then 0 else i s, pending := if i r = 0 then pending s - {SIGUSR1} else pending s,
             cpc := Store ((if i r = 0 then 0 else i s) + sign s),
             sign := if sign r = sign s then sign s else - sign s,
             pending := (if i r = 0 then pending s - {SIGUSR1} else pending s) - {SIGUSR2} \<union> (pending r \<inter> {SIGUSR1, SIGUSR2})\<rparr>"
    using s l by (cases "i r = 0") (simp_all add: crun_append crun_es_reset crun_es_flip crun_es_fix main_step_Load)
  also have "\<dots> = r\<lparr>cpc := Store (i r + sign s)\<rparr>"
    using f win_pending_eq [OF w rr s(4)] rr s(1) by (auto intro!: cstate.equality)
  finally show ?thesis .
qed

text \<open>A window after reading \<^verbatim>\<open>i\<close> first is replaced by reversals, load, reset.\<close>

lemma window_i_first:
  assumes hs: "handlers_on s" and l: "cpc s = Load" and w: "win s r" and rr: "status r = Running"
  shows "crun s (es_flip s r @ MainStep # es_reset r @ es_fix r) = r\<lparr>cpc := Store (i s + sign r)\<rparr>"
proof -
  have s: "status s = Running" "SIGUSR1 \<in> handled s" "SIGUSR2 \<in> handled s" "pending s \<subseteq> {SIGUSR1, SIGUSR2}"
    using hs by (simp_all add: handlers_on_def)
  have f: "cpc r = cpc s \<and> out r = out s \<and> handled r = handled s \<and> cpid r = cpid s
         \<and> (if i r = 0 then 0 else i s) = i r \<and> (if sign r = sign s then sign s else - sign s) = sign r"
    by (rule win_fields [OF w rr s(1)])
  have "crun s (es_flip s r @ MainStep # es_reset r @ es_fix r)
        = s\<lparr>sign := if sign r = sign s then sign s else - sign s, pending := pending s - {SIGUSR2},
             cpc := Store (i s + (if sign r = sign s then sign s else - sign s)),
             i := if i r = 0 then 0 else i s,
             pending := (if i r = 0 then pending s - {SIGUSR1} else pending s) - {SIGUSR2} \<union> (pending r \<inter> {SIGUSR1, SIGUSR2})\<rparr>"
    using s l by (cases "i r = 0") (auto simp: crun_append crun_es_reset crun_es_flip crun_es_fix main_step_Load
                                        intro!: cstate.equality)
  also have "\<dots> = r\<lparr>cpc := Store (i s + sign r)\<rparr>"
    using f win_pending_eq [OF w rr s(4)] rr s(1) by (auto intro!: cstate.equality)
  finally show ?thesis .
qed

section \<open>Refinement\<close>

lemma creach_Load_handlers_on: "creach p s \<Longrightarrow> cpc s = Load \<Longrightarrow> status s = Running \<Longrightarrow> handlers_on s"
  using creach_inv [of p s] by (simp add: counter_inv_def handlers_on_def)

lemma window_creach:
  assumes "creach p s0" and "cpc s0 = Load" and "status s0 = Running" and "MainStep \<notin> set ws"
    and "status (crun s0 ws) = Running"
  shows "creach p ((crun s0 ws)\<lparr>cpc := Store (i (crun s0 ws) + sign s0)\<rparr>)
       \<and> creach p ((crun s0 ws)\<lparr>cpc := Store (i s0 + sign (crun s0 ws))\<rparr>)"
proof -
  have hs: "handlers_on s0" by (rule creach_Load_handlers_on [OF assms(1-3)])
  then have "win s0 (crun s0 ws)"
    using win_crun [of ws s0 s0] win_refl [of s0] assms(4) by (auto simp: handlers_on_def)
  then show ?thesis
    using window_sign_first [OF hs assms(2) _ assms(5)] window_i_first [OF hs assms(2) _ assms(5)]
      creach_crun [OF assms(1)] by metis
qed

lemma freach_refines:
  "freach p (s, h) \<Longrightarrow>
     (h = None \<longrightarrow> creach p s)
   \<and> (\<forall>rd. h = Some rd \<longrightarrow> (\<exists>s0 ws. creach p s0 \<and> cpc s0 = Load \<and> status s0 = Running \<and> read_of rd s0
                                  \<and> MainStep \<notin> set ws \<and> s = crun s0 ws))"
proof (induction "(s, h)" arbitrary: s h rule: freach.induct)
  case init
  then show ?case by (simp add: creach.init)
next
  case (main s)
  then show ?case using creach.step [of p s MainStep] by (simp del: cstep.simps)
next
  case (read_sign s)
  then show ?case by (intro conjI allI impI exI [of _ s] exI [of _ "[]"]) auto
next
  case (read_i s)
  then show ?case by (intro conjI allI impI exI [of _ s] exI [of _ "[]"]) auto
next
  case (then_i s sg)
  then obtain s0 ws where "creach p s0" "cpc s0 = Load" "status s0 = Running" "sg = sign s0"
      "MainStep \<notin> set ws" "s = crun s0 ws" by auto
  moreover have "status s = Running" using then_i by blast
  ultimately show ?case using window_creach [of p s0 ws] by simp
next
  case (then_sign s v)
  then obtain s0 ws where "creach p s0" "cpc s0 = Load" "status s0 = Running" "v = i s0"
      "MainStep \<notin> set ws" "s = crun s0 ws" by auto
  moreover have "status s = Running" using then_sign by blast
  ultimately show ?case using window_creach [of p s0 ws] by simp
next
  case (signal s h e)
  show ?case
  proof (intro conjI allI impI)
    assume "h = None"
    then show "creach p (cstep s e)" using signal creach.step [of p s e] by blast
  next
    fix rd assume "h = Some rd"
    then obtain s0 ws where "creach p s0" "cpc s0 = Load" "status s0 = Running" "read_of rd s0"
        "MainStep \<notin> set ws" "s = crun s0 ws" using signal by blast
    then show "\<exists>s0 ws. creach p s0 \<and> cpc s0 = Load \<and> status s0 = Running \<and> read_of rd s0
                 \<and> MainStep \<notin> set ws \<and> cstep s e = crun s0 ws"
      using signal by (intro exI [of _ s0] exI [of _ "ws @ [e]"]) (simp add: crun_append)
  qed
qed

text \<open>
  C27. Reading the two operands of \<^verbatim>\<open>i += sign\<close> separately, in either order
  and with any signals sent and delivered, and the process stopped, resumed or
  killed, between the reads, reaches no state the one-load model does not: the
  counter model of \<open>Counter\<close> is a sound abstraction of the compiled
  statement.
\<close>

theorem freach_creach: "freach p (s, None) \<Longrightarrow> creach p s"
  using freach_refines [of p s None] by simp

theorem freach_creach_witness:
  "\<exists>S. freach 7 (S, None) \<and> creach 7 S \<and> cpc S = Store 1 \<and> sign S = - 1"
proof -
  let ?s0 = "counter_init 7"
  let ?s1 = "cstep ?s0 MainStep"
  let ?s2 = "cstep ?s1 MainStep"
  let ?L = "cstep ?s2 MainStep"
  let ?X = "cstep (cstep ?L (Send SIGUSR2)) (Deliver SIGUSR2)"
  let ?S = "?X\<lparr>cpc := Store (i ?X + sign ?L)\<rparr>"
  have f1: "freach 7 (?s1, None)" by (rule freach.main [OF freach.init]) (simp add: counter_init_def)
  have f2: "freach 7 (?s2, None)" by (rule freach.main [OF f1]) (simp add: counter_simps)
  have f3: "freach 7 (?L, None)" by (rule freach.main [OF f2]) (simp add: counter_simps)
  have f4: "freach 7 (?L, Some (ReadSign (sign ?L)))" by (rule freach.read_sign [OF f3]) (simp_all add: counter_simps)
  have f5: "freach 7 (cstep ?L (Send SIGUSR2), Some (ReadSign (sign ?L)))" by (rule freach.signal [OF f4]) simp
  have f6: "freach 7 (?X, Some (ReadSign (sign ?L)))" by (rule freach.signal [OF f5]) simp
  have f7: "freach 7 (?S, None)" by (rule freach.then_i [OF f6]) (simp add: counter_simps Let_def)
  have "creach 7 ?S" by (rule freach_creach [OF f7])
  moreover have "cpc ?S = Store 1 \<and> sign ?S = - 1" by (simp add: counter_simps Let_def)
  ultimately show ?thesis using f7 by blast
qed

end
