(* ===== verification/Controller.thy ===== *)
theory Controller
  imports Prelude
begin

text \<open>
  Model of the controller, \<^verbatim>\<open>main\<close> of \<^verbatim>\<open>src/Signals/src/handler.c\<close>. Its local
  variables are the fields of the record \<open>ctl\<close>, with the unread standard input
  (a list of the integers \<^verbatim>\<open>scanf\<close> would parse), the signals handed to forked
  children in order, and the messages printed. The C library calls whose outcome
  the program cannot control (\<^verbatim>\<open>malloc\<close>, \<^verbatim>\<open>realloc\<close>, \<^verbatim>\<open>fork\<close>, and the
  contents of fresh heap cells) are parameters in the record \<open>cenv\<close>. The
  undefined behaviour of the source (reading \<^verbatim>\<open>pids[spec_counter - 1]\<close> out of
  bounds) is an error value; not returning is \<open>None\<close> of the loop.
\<close>

section \<open>State, environment, messages\<close>

datatype msg =
    Welcome | WrongOption | InsertPids | SelectInstance "(int \<times> pid) list"
  | FunctionMenu | AllocFailed | ReallocFailed | Goodbye

datatype cerr = IndexOutOfRange int

record cenv =
  malloc_ok :: "nat \<Rightarrow> bool"
  realloc_ok :: "nat \<Rightarrow> bool"
  fork_ok :: "nat \<Rightarrow> bool"
  garbage :: "nat \<Rightarrow> int"

record ctl =
  input :: "int list"
  qty :: int
  pids :: "pid list"
  spec_counter :: int
  selection :: int
  forks :: nat
  sent :: "(pid \<times> sig) list"
  stdout :: "msg list"

datatype iter_res = Continue ctl | Exit int ctl

definition ctl_init :: "int list \<Rightarrow> ctl" where
  "ctl_init inp =
     \<lparr>input = inp, qty = 0, pids = [], spec_counter = 0, selection = 0, forks = 0,
      sent = [], stdout = []\<rparr>"

section \<open>Reading an integer\<close>

text \<open>
  \<^verbatim>\<open>scanf("%d", &v)\<close>: the next integer of the input, or, at end of input,
  \<^verbatim>\<open>v\<close> left as it was.
\<close>

definition scan_int :: "int \<Rightarrow> int list \<Rightarrow> int \<times> int list" where
  "scan_int old inp = (case inp of [] \<Rightarrow> (old, []) | x # xs \<Rightarrow> (x, xs))"

section \<open>Start-up\<close>

text \<open>The \<^verbatim>\<open>while (gate)\<close> loop of lines 26--38.\<close>

function read_qty :: "ctl \<Rightarrow> ctl" where
  "read_qty s =
     (case scan_int (qty s) (input s) of
        (q, inp) \<Rightarrow>
          (let s2 = s\<lparr>stdout := stdout s @ [Welcome], qty := q, input := inp\<rparr>
           in if q > 5 \<or> q < 0
              then read_qty (s2\<lparr>stdout := stdout s2 @ [WrongOption], qty := 0\<rparr>)
              else s2))"
  by pat_completeness auto
termination
  by (relation "measure (\<lambda>s. 2 * length (input s) + (if 0 \<le> qty s \<and> qty s \<le> 5 then 0 else 1))")
     (auto simp: scan_int_def split: list.splits)

text \<open>The \<^verbatim>\<open>for\<close> loop of lines 51--53, from index \<open>k\<close>.\<close>

function read_pids_loop :: "nat \<Rightarrow> ctl \<Rightarrow> ctl" where
  "read_pids_loop k s =
     (if int k < qty s then
        (case scan_int (pids s ! k) (input s) of
           (v, inp) \<Rightarrow> read_pids_loop (Suc k) (s\<lparr>pids := (pids s)[k := v], input := inp\<rparr>))
      else s)"
  by pat_completeness auto
termination
  by (relation "measure (\<lambda>(k, s). nat (qty s) - k)") auto

section \<open>One iteration of the interaction loop\<close>

text \<open>The \<^verbatim>\<open>switch (selection)\<close>: the signal each action code sends.\<close>

definition action_sig :: "int \<Rightarrow> sig option" where
  "action_sig sel =
     (if sel = 1 then Some SIGSTOP else if sel = 2 then Some SIGCONT
      else if sel = 3 then Some SIGUSR2 else if sel = 4 then Some SIGUSR1
      else if sel = 5 then Some SIGKILL else None)"

text \<open>
  \<^verbatim>\<open>if (fork() == 0) { kill(p, SIG); exit(1); }\<close>: the child sends one signal and
  exits; when \<^verbatim>\<open>fork\<close> fails nothing is sent and the parent goes on.
\<close>

definition fork_kill :: "cenv \<Rightarrow> pid \<Rightarrow> sig \<Rightarrow> ctl \<Rightarrow> ctl" where
  "fork_kill env p g s =
     s\<lparr>forks := Suc (forks s),
       sent := (if fork_ok env (forks s) then sent s @ [(p, g)] else sent s)\<rparr>"

text \<open>The compaction loop of lines 113--115, \<^verbatim>\<open>pids[i] = pids[i + 1]\<close> for \<open>k \<le> i < n - 1\<close>.\<close>

function shift_loop :: "nat \<Rightarrow> nat \<Rightarrow> pid list \<Rightarrow> pid list" where
  "shift_loop k n xs = (if k < n - 1 then shift_loop (Suc k) n (xs[k := xs ! Suc k]) else xs)"
  by pat_completeness auto
termination
  by (relation "measure (\<lambda>(k, n, xs). n - k)") auto

text \<open>Lines 57--126: display, two reads, the bounds of the array read, the action.\<close>

definition ctl_iter :: "cenv \<Rightarrow> ctl \<Rightarrow> cerr + iter_res" where
  "ctl_iter env s =
     (case scan_int (spec_counter s) (input s) of
        (k, inp1) \<Rightarrow>
     (case scan_int (selection s) inp1 of
        (sel, inp2) \<Rightarrow>
     (let s3 = s\<lparr>stdout := stdout s @ [SelectInstance (zip [1..qty s] (pids s)), FunctionMenu],
                 spec_counter := k, selection := sel, input := inp2\<rparr>
      in if k < 1 \<or> qty s3 < k then Inl (IndexOutOfRange k)
         else
           (let p = pids s3 ! nat (k - 1)
            in case action_sig sel of
                 None \<Rightarrow> Inr (Continue s3)
               | Some g \<Rightarrow>
                   (let s4 = fork_kill env p g s3
                    in if g = SIGKILL then
                         (let xs = shift_loop (nat (k - 1)) (nat (qty s4)) (pids s4);
                              q' = qty s4 - 1
                          in if \<not> realloc_ok env (nat q') \<and> 0 < q'
                             then Inr (Exit 1 (s4\<lparr>qty := q', pids := xs,
                                                   stdout := stdout s4 @ [ReallocFailed]\<rparr>))
                             else Inr (Continue (s4\<lparr>qty := q', pids := take (nat q') xs\<rparr>)))
                       else Inr (Continue s4))))))"

section \<open>The interaction loop and \<^verbatim>\<open>main\<close>\<close>

text \<open>\<^verbatim>\<open>while (qty > 0)\<close> (lines 56--127), then the good-bye message (130--133).\<close>

partial_function (option) ctl_loop :: "cenv \<Rightarrow> ctl \<Rightarrow> (cerr + int \<times> ctl) option" where
  "ctl_loop env s =
     (if 0 < qty s then
        (case ctl_iter env s of
           Inl e \<Rightarrow> Some (Inl e)
         | Inr (Continue s') \<Rightarrow> ctl_loop env s'
         | Inr (Exit c s') \<Rightarrow> Some (Inr (c, s')))
      else Some (Inr (0, s\<lparr>stdout := stdout s @ [Goodbye]\<rparr>)))"

definition controller_main :: "cenv \<Rightarrow> int list \<Rightarrow> (cerr + int \<times> ctl) option" where
  "controller_main env inp =
     (let s1 = read_qty (ctl_init inp)
      in if \<not> malloc_ok env (nat (qty s1))
         then Some (Inr (1, s1\<lparr>stdout := stdout s1 @ [AllocFailed]\<rparr>))
         else ctl_loop env
                (read_pids_loop 0
                   (s1\<lparr>pids := map (garbage env) [0..<nat (qty s1)],
                       stdout := stdout s1 @ [InsertPids]\<rparr>)))"

section \<open>Invariant and auxiliary definitions\<close>

text \<open>
  The registry invariant: \<^verbatim>\<open>qty\<close> is in \<open>[0, 5]\<close> and is the length of the
  array. \<open>iter_state\<close> is the state an iteration leaves; \<open>ctl_reach env s0\<close> are
  the states the interaction loop passes through from \<open>s0\<close>; \<open>eof_repeat\<close>
  holds of a state at end of input whose last inputs are a valid index and an action
  other than kill; \<open>kill_all_input n\<close> selects entry 1 and action 5 \<open>n\<close> times.
\<close>

definition ctl_inv :: "ctl \<Rightarrow> bool" where
  "ctl_inv s \<longleftrightarrow> 0 \<le> qty s \<and> qty s \<le> 5 \<and> length (pids s) = nat (qty s)"

fun iter_state :: "iter_res \<Rightarrow> ctl" where
  "iter_state (Continue t) = t"
| "iter_state (Exit c t) = t"

inductive ctl_reach :: "cenv \<Rightarrow> ctl \<Rightarrow> ctl \<Rightarrow> bool" for env s0 where
  start: "ctl_reach env s0 s0"
| iter: "ctl_reach env s0 s \<Longrightarrow> 0 < qty s \<Longrightarrow> ctl_iter env s = Inr (Continue s') \<Longrightarrow>
           ctl_reach env s0 s'"

definition eof_repeat :: "ctl \<Rightarrow> bool" where
  "eof_repeat s \<longleftrightarrow>
     input s = [] \<and> 1 \<le> spec_counter s \<and> spec_counter s \<le> qty s \<and> selection s \<noteq> 5"

definition kill_all_input :: "nat \<Rightarrow> int list" where
  "kill_all_input n = concat (replicate n [1, 5])"

text \<open>An environment in which every library call succeeds and fresh cells hold 0.\<close>

definition good_env :: cenv where
  "good_env = \<lparr>malloc_ok = (\<lambda>_. True), realloc_ok = (\<lambda>_. True), fork_ok = (\<lambda>_. True),
                garbage = (\<lambda>_. 0)\<rparr>"

section \<open>Characteristic equations of the loops\<close>

declare read_qty.simps [simp del] read_pids_loop.simps [simp del] shift_loop.simps [simp del]

lemma scan_int_Cons [simp]: "scan_int old (x # xs) = (x, xs)"
  by (simp add: scan_int_def)

lemma scan_int_Nil [simp]: "scan_int old [] = (old, [])"
  by (simp add: scan_int_def)

lemma read_qty_Cons:
  "input s = q # rest \<Longrightarrow> read_qty s =
     (if q > 5 \<or> q < 0
      then read_qty (s\<lparr>input := rest, stdout := stdout s @ [Welcome, WrongOption], qty := 0\<rparr>)
      else s\<lparr>stdout := stdout s @ [Welcome], qty := q, input := rest\<rparr>)"
  by (subst read_qty.simps) (simp add: Let_def)

lemma read_qty_Nil:
  "input s = [] \<Longrightarrow> read_qty s =
     (if qty s > 5 \<or> qty s < 0
      then s\<lparr>stdout := stdout s @ [Welcome, WrongOption, Welcome], qty := 0\<rparr>
      else s\<lparr>stdout := stdout s @ [Welcome]\<rparr>)"
  by (subst read_qty.simps) (simp add: Let_def read_qty.simps)

lemma read_pids_loop_step:
  "int k < qty s \<Longrightarrow> read_pids_loop k s =
     (case scan_int (pids s ! k) (input s) of
        (v, inp) \<Rightarrow> read_pids_loop (Suc k) (s\<lparr>pids := (pids s)[k := v], input := inp\<rparr>))"
  by (subst read_pids_loop.simps) simp

lemma read_pids_loop_stop: "\<not> int k < qty s \<Longrightarrow> read_pids_loop k s = s"
  by (subst read_pids_loop.simps) simp

lemma shift_loop_step:
  "k < n - 1 \<Longrightarrow> shift_loop k n xs = shift_loop (Suc k) n (xs[k := xs ! Suc k])"
  by (subst shift_loop.simps) simp

lemma shift_loop_stop: "\<not> k < n - 1 \<Longrightarrow> shift_loop k n xs = xs"
  by (subst shift_loop.simps) simp

lemma ctl_loop_run:
  "0 < qty s \<Longrightarrow> ctl_loop env s =
     (case ctl_iter env s of
        Inl e \<Rightarrow> Some (Inl e)
      | Inr (Continue s') \<Rightarrow> ctl_loop env s'
      | Inr (Exit c s') \<Rightarrow> Some (Inr (c, s')))"
  by (subst ctl_loop.simps) simp

lemma ctl_loop_done:
  "\<not> 0 < qty s \<Longrightarrow> ctl_loop env s = Some (Inr (0, s\<lparr>stdout := stdout s @ [Goodbye]\<rparr>))"
  by (subst ctl_loop.simps) simp

lemma action_sig_kill_iff [simp]: "action_sig sel = Some SIGKILL \<longleftrightarrow> sel = 5"
  by (simp add: action_sig_def)

lemmas ctl_eval [ctl_simps] = read_qty_Cons read_qty_Nil read_pids_loop_step read_pids_loop_stop
  shift_loop_step shift_loop_stop ctl_loop_run ctl_loop_done
  ctl_iter_def action_sig_def fork_kill_def controller_main_def ctl_init_def good_env_def

section \<open>The compaction loop\<close>

lemma shift_loop_remove_nth:
  "n = length xs \<Longrightarrow> k < n \<Longrightarrow> shift_loop k n xs = remove_nth k xs @ [last xs]"
proof (induction k n xs rule: shift_loop.induct)
  case (1 k n xs)
  show ?case
  proof (cases "k < n - 1")
    case True
    let ?xs' = "xs[k := xs ! Suc k]"
    have IH: "shift_loop (Suc k) n ?xs' = remove_nth (Suc k) ?xs' @ [last ?xs']"
      using "1.prems" True by (intro "1.IH") simp_all
    have "remove_nth (Suc k) ?xs' = remove_nth k xs"
      using "1.prems" True
      by (simp add: remove_nth_def take_Suc_conv_app_nth Cons_nth_drop_Suc [symmetric])
    moreover have "last ?xs' = last xs"
      using "1.prems" True by (subst last_list_update) auto
    ultimately show ?thesis using IH True by (simp add: shift_loop_step)
  next
    case False
    with "1.prems" have "k = length xs - 1" and "xs \<noteq> []" by auto
    moreover have "xs = take (length xs - 1) xs @ [last xs]"
      using \<open>xs \<noteq> []\<close> by (metis append_butlast_last_id butlast_conv_take)
    ultimately show ?thesis
      using False by (simp add: shift_loop_stop remove_nth_def)
  qed
qed

section \<open>One iteration\<close>

lemma iter_valid_index:
  assumes "ctl_iter env s = Inr r" and "scan_int (spec_counter s) (input s) = (k, inp1)"
  shows "1 \<le> k \<and> k \<le> qty s"
  using assms by (cases "scan_int (selection s) inp1") (auto simp: ctl_iter_def Let_def split: if_splits)

lemma iter_pids:
  assumes "ctl_inv s" and "ctl_iter env s = Inr (Continue s')"
  shows "pids s' = (if selection s' = 5 then remove_nth (nat (spec_counter s' - 1)) (pids s) else pids s)
         \<and> qty s' = (if selection s' = 5 then qty s - 1 else qty s)"
proof -
  obtain k inp1 where k: "scan_int (spec_counter s) (input s) = (k, inp1)" by fastforce
  obtain sel inp2 where sel: "scan_int (selection s) inp1 = (sel, inp2)" by fastforce
  have len: "length (pids s) = nat (qty s)" using assms(1) by (simp add: ctl_inv_def)
  have valid: "1 \<le> k" "k \<le> qty s" using iter_valid_index [OF assms(2) k] by simp_all
  then have kl: "nat (k - 1) < length (pids s)" using len by simp
  have c0: "take (length (pids s) - 1) (shift_loop (nat (k - 1)) (length (pids s)) (pids s))
               = remove_nth (nat (k - 1)) (pids s)"
    using shift_loop_remove_nth [OF refl kl] kl by simp
  have cmp: "take (nat (qty s - 1)) (shift_loop (nat (k - 1)) (nat (qty s)) (pids s))
               = remove_nth (nat (k - 1)) (pids s)"
    using c0 len valid by (simp add: nat_diff_distrib)
  show ?thesis
    using assms(2) k sel valid cmp
    by (auto simp: ctl_iter_def fork_kill_def Let_def action_sig_def split: option.splits if_splits)
qed

lemma iter_sent:
  assumes "ctl_iter env s = Inr r" and "t = iter_state r"
  shows "sent t = sent s @ (case action_sig (selection t) of
            None \<Rightarrow> []
          | Some g \<Rightarrow> if fork_ok env (forks s) then [(pids s ! nat (spec_counter t - 1), g)] else [])"
proof -
  obtain k inp1 where k: "scan_int (spec_counter s) (input s) = (k, inp1)" by fastforce
  obtain sel inp2 where sel: "scan_int (selection s) inp1 = (sel, inp2)" by fastforce
  show ?thesis
    using assms k sel
    by (auto simp: ctl_iter_def fork_kill_def Let_def action_sig_def split: option.splits if_splits)
qed

lemma iter_inv:
  assumes "ctl_inv s" and "ctl_iter env s = Inr (Continue s')"
  shows "ctl_inv s'"
proof -
  obtain k inp1 where k: "scan_int (spec_counter s) (input s) = (k, inp1)" by fastforce
  obtain sel inp2 where sel: "scan_int (selection s) inp1 = (sel, inp2)" by fastforce
  have valid: "1 \<le> k" "k \<le> qty s" "spec_counter s' = k"
    using assms(2) k sel by (auto simp: ctl_iter_def fork_kill_def Let_def split: if_splits option.splits)
  have "nat (k - 1) < length (pids s)" using assms(1) valid by (simp add: ctl_inv_def)
  then show ?thesis
    using iter_pids [OF assms] assms(1) valid by (auto simp: ctl_inv_def)
qed

lemma iter_kill_first:
  assumes "0 < qty s" and "input s = 1 # 5 # rest" and "realloc_ok env (nat (qty s - 1))"
  shows "\<exists>s'. ctl_iter env s = Inr (Continue s') \<and> spec_counter s' = 1 \<and> selection s' = 5
              \<and> input s' = rest \<and> forks s' = Suc (forks s)"
  using assms by (simp add: ctl_iter_def Let_def action_sig_def fork_kill_def)

lemma eof_repeat_iter:
  "eof_repeat s \<Longrightarrow> 0 < qty s \<and> (\<exists>s'. ctl_iter env s = Inr (Continue s') \<and> eof_repeat s')"
  by (auto simp: eof_repeat_def ctl_iter_def Let_def fork_kill_def split: option.splits)

section \<open>Start-up\<close>

lemma read_pids_loop_eq:
  "length (pids s) = nat (qty s) \<Longrightarrow> k \<le> nat (qty s) \<Longrightarrow>
     read_pids_loop k s =
       s\<lparr>pids := take k (pids s) @ take (nat (qty s) - k) (input s) @ drop (k + length (input s)) (pids s),
         input := drop (nat (qty s) - k) (input s)\<rparr>"
proof (induction k s rule: read_pids_loop.induct)
  case (1 k s)
  show ?case
  proof (cases "int k < qty s")
    case False
    with "1.prems" have "k = nat (qty s)" by simp
    with False "1.prems" show ?thesis by (simp add: read_pids_loop_stop)
  next
    case True
    show ?thesis
    proof (cases "input s")
      case Nil
      have "read_pids_loop k s =
              read_pids_loop (Suc k) (s\<lparr>pids := (pids s)[k := pids s ! k], input := []\<rparr>)"
        using True Nil by (simp add: read_pids_loop_step)
      also have "\<dots> = s\<lparr>pids := take (Suc k) (pids s) @ drop (Suc k) (pids s), input := []\<rparr>"
        using "1.IH" [OF True, of "pids s ! k" "[]"] True "1.prems" Nil by simp
      finally show ?thesis using Nil by simp
    next
      case (Cons x xs)
      let ?s' = "s\<lparr>pids := (pids s)[k := x], input := xs\<rparr>"
      have "read_pids_loop k s = read_pids_loop (Suc k) ?s'"
        using True Cons by (simp add: read_pids_loop_step)
      also have "\<dots> = ?s'\<lparr>pids := take (Suc k) (pids ?s') @ take (nat (qty ?s') - Suc k) (input ?s')
                              @ drop (Suc k + length (input ?s')) (pids ?s'),
                          input := drop (nat (qty ?s') - Suc k) (input ?s')\<rparr>"
        using "1.IH" [OF True, of x xs] True "1.prems" Cons by simp
      also have "\<dots> = s\<lparr>pids := take k (pids s) @ take (nat (qty s) - k) (input s)
                              @ drop (k + length (input s)) (pids s),
                          input := drop (nat (qty s) - k) (input s)\<rparr>"
      proof -
        have "nat (qty s) - k = Suc (nat (qty s) - Suc k)" using True by simp
        then show ?thesis using True "1.prems" Cons by (simp add: take_Suc_conv_app_nth)
      qed
      finally show ?thesis .
    qed
  qed
qed

lemma iter_index:
  assumes "ctl_iter env s = Inr r"
  shows "1 \<le> spec_counter (iter_state r) \<and> spec_counter (iter_state r) \<le> qty s"
proof -
  obtain k inp1 where k: "scan_int (spec_counter s) (input s) = (k, inp1)" by fastforce
  obtain sel inp2 where sel: "scan_int (selection s) inp1 = (sel, inp2)" by fastforce
  show ?thesis
    using assms k sel
    by (auto simp: ctl_iter_def fork_kill_def Let_def split: option.splits if_splits)
qed

section \<open>Properties of the controller\<close>

text \<open>
  C2. The kill action (code 5) on entry \<open>k\<close> (1-based) removes exactly that entry:
  the entries before it keep their places, the ones after it move down by one,
  the registry shrinks by one, and the removed identifier is the one at \<open>k\<close>.
\<close>

theorem ctl_iter_terminate:
  assumes "ctl_inv s" and "ctl_iter env s = Inr (Continue s')" and "selection s' = 5"
  shows "pids s' = remove_nth (nat (spec_counter s' - 1)) (pids s)
         \<and> length (pids s') = length (pids s) - 1 \<and> subseq (pids s') (pids s)
         \<and> mset (pids s) = add_mset (pids s ! nat (spec_counter s' - 1)) (mset (pids s'))"
proof -
  have p: "pids s' = remove_nth (nat (spec_counter s' - 1)) (pids s)"
    using iter_pids [OF assms(1,2)] assms(3) by simp
  have "nat (spec_counter s' - 1) < length (pids s)"
    using iter_index [OF assms(2)] assms(1) by (simp add: ctl_inv_def)
  then show ?thesis using p by (simp add: mset_remove_nth subseq_remove_nth)
qed

theorem ctl_iter_terminate_witness:
  "\<exists>s'. ctl_iter good_env ((ctl_init [2, 5])\<lparr>qty := 2, pids := [111, 222]\<rparr>) = Inr (Continue s')
        \<and> pids s' = [111]"
proof -
  let ?s = "(ctl_init [2, 5])\<lparr>qty := 2, pids := [111, 222]\<rparr>"
  obtain s' where e: "ctl_iter good_env ?s = Inr (Continue s')" and sel: "selection s' = 5"
      and k: "spec_counter s' = 2"
    by (auto simp: ctl_iter_def ctl_init_def Let_def action_sig_def fork_kill_def good_env_def)
  have inv: "ctl_inv ?s" by (simp add: ctl_inv_def ctl_init_def)
  from ctl_iter_terminate [OF inv e sel] k e show ?thesis by (auto simp: remove_nth_def ctl_init_def)
qed

text \<open>
  C4. Along the interaction loop the registry invariant holds (\<^verbatim>\<open>qty\<close> in
  \<open>[0, 5]\<close>, equal to the array length) and the registry is always a subsequence of
  the initial one: entries are only removed, never reordered or added.
\<close>

theorem ctl_reach_inv:
  "ctl_reach env s0 s \<Longrightarrow> ctl_inv s0 \<Longrightarrow> ctl_inv s \<and> subseq (pids s) (pids s0)"
proof (induction rule: ctl_reach.induct)
  case start
  then show ?case by simp
next
  case (iter s s')
  then have "ctl_inv s" and sub: "subseq (pids s) (pids s0)" by simp_all
  have "ctl_inv s'" by (rule iter_inv [OF \<open>ctl_inv s\<close> iter.hyps(3)])
  moreover have "subseq (pids s') (pids s)"
    using iter_pids [OF \<open>ctl_inv s\<close> iter.hyps(3)] by auto
  ultimately show ?case using sub subseq_order.order_trans by blast
qed

theorem ctl_reach_inv_witness:
  "\<exists>s'. ctl_reach good_env ((ctl_init [1, 5])\<lparr>qty := 2, pids := [111, 222]\<rparr>) s'
        \<and> ctl_inv s' \<and> pids s' = [222]"
proof -
  let ?s = "(ctl_init [1, 5])\<lparr>qty := 2, pids := [111, 222]\<rparr>"
  obtain s' where e: "ctl_iter good_env ?s = Inr (Continue s')" and p: "pids s' = [222]"
    by (auto simp: ctl_iter_def ctl_init_def Let_def action_sig_def fork_kill_def shift_loop_step
          shift_loop_stop good_env_def)
  have r: "ctl_reach good_env ?s s'"
    by (rule ctl_reach.iter [OF ctl_reach.start _ e]) (simp add: ctl_init_def)
  have inv: "ctl_inv ?s" by (simp add: ctl_inv_def ctl_init_def)
  from ctl_reach_inv [OF r inv] r p show ?thesis by blast
qed

text \<open>
  C6. An action other than kill leaves the registry as it is and hands exactly one
  signal to a forked child (when \<^verbatim>\<open>fork\<close> succeeds): \<^verbatim>\<open>SIGSTOP\<close>,
  \<^verbatim>\<open>SIGCONT\<close>, \<^verbatim>\<open>SIGUSR2\<close>, \<^verbatim>\<open>SIGUSR1\<close> for codes 1 to 4, addressed
  to the selected identifier; any other code sends nothing.
\<close>

theorem ctl_iter_signal_only:
  assumes "ctl_inv s" and "ctl_iter env s = Inr (Continue s')" and "selection s' \<noteq> 5"
  shows "pids s' = pids s \<and> qty s' = qty s \<and>
         sent s' = sent s @
           (if fork_ok env (forks s) \<and> selection s' \<in> {1, 2, 3, 4}
            then [(pids s ! nat (spec_counter s' - 1),
                   [SIGSTOP, SIGCONT, SIGUSR2, SIGUSR1] ! nat (selection s' - 1))]
            else [])"
proof -
  have "pids s' = pids s \<and> qty s' = qty s" using iter_pids [OF assms(1,2)] assms(3) by simp
  moreover have "sent s' = sent s @ (case action_sig (selection s') of
            None \<Rightarrow> []
          | Some g \<Rightarrow> if fork_ok env (forks s) then [(pids s ! nat (spec_counter s' - 1), g)] else [])"
    using iter_sent [OF assms(2)] by simp
  ultimately show ?thesis using assms(3) by (auto simp: action_sig_def)
qed

theorem ctl_iter_signal_only_witness:
  "\<exists>s'. ctl_iter good_env ((ctl_init [1, 3])\<lparr>qty := 2, pids := [111, 222]\<rparr>) = Inr (Continue s')
        \<and> pids s' = [111, 222] \<and> sent s' = [(111, SIGUSR2)]"
proof -
  let ?s = "(ctl_init [1, 3])\<lparr>qty := 2, pids := [111, 222]\<rparr>"
  obtain s' where e: "ctl_iter good_env ?s = Inr (Continue s')" and sel: "selection s' = 3"
      and k: "spec_counter s' = 1" and f: "forks s' = 1"
    by (auto simp: ctl_iter_def ctl_init_def Let_def action_sig_def fork_kill_def)
  have inv: "ctl_inv ?s" by (simp add: ctl_inv_def ctl_init_def)
  from ctl_iter_signal_only [OF inv e] sel k e show ?thesis
    by (auto simp: ctl_init_def good_env_def)
qed

text \<open>
  C8. The start-up loop skips every quantity outside \<open>[0, 5]\<close>, printing the
  prompt and the complaint for each, and stops at the first valid one.
\<close>

theorem read_qty_first_valid:
  "list_all (\<lambda>x. x < 0 \<or> 5 < x) bad \<Longrightarrow> 0 \<le> q \<Longrightarrow> q \<le> 5 \<Longrightarrow> input s = bad @ q # rest \<Longrightarrow>
     qty (read_qty s) = q \<and> input (read_qty s) = rest \<and>
     stdout (read_qty s) = stdout s @ concat (replicate (length bad) [Welcome, WrongOption]) @ [Welcome]"
proof (induction bad arbitrary: s)
  case Nil
  then show ?case by (simp add: read_qty_Cons)
next
  case (Cons x bad)
  then show ?case by (auto simp: read_qty_Cons)
qed

theorem read_qty_first_valid_witness:
  "qty (read_qty (ctl_init [7, -1, 2, 111])) = 2 \<and> input (read_qty (ctl_init [7, -1, 2, 111])) = [111]
   \<and> stdout (read_qty (ctl_init [7, -1, 2, 111])) = [Welcome, WrongOption, Welcome, WrongOption, Welcome]"
  using read_qty_first_valid [of "[7, -1]" 2 "ctl_init [7, -1, 2, 111]" "[111]"]
  by (simp add: ctl_init_def)

text \<open>
  C9. The interaction loop returns: from any registry, the input that selects
  entry 1 and kill once per entry makes it exit with status 0, the registry
  empty, and one \<^verbatim>\<open>SIGKILL\<close> sent to each identifier in registry order (when
  \<^verbatim>\<open>fork\<close> and \<^verbatim>\<open>realloc\<close> succeed).
\<close>

theorem ctl_loop_kill_all:
  assumes "ctl_inv s" and "\<forall>n. fork_ok env n \<and> realloc_ok env n"
    and "input s = kill_all_input (length (pids s)) @ rest"
  shows "\<exists>t. ctl_loop env s = Some (Inr (0, t)) \<and> pids t = [] \<and> input t = rest
             \<and> sent t = sent s @ map (\<lambda>p. (p, SIGKILL)) (pids s)"
  using assms
proof (induction "length (pids s)" arbitrary: s)
  case 0
  then have "qty s = 0" by (simp add: ctl_inv_def)
  with 0 show ?case by (simp add: ctl_loop_done kill_all_input_def)
next
  case (Suc n)
  then have q: "0 < qty s" by (simp add: ctl_inv_def)
  from Suc.prems(3) Suc.hyps(2) have inp: "input s = 1 # 5 # (kill_all_input n @ rest)"
    by (metis kill_all_input_def append.simps(2) concat.simps(2) replicate_Suc append_Cons append_Nil)
  obtain s' where s': "ctl_iter env s = Inr (Continue s')" "spec_counter s' = 1" "selection s' = 5"
      "input s' = kill_all_input n @ rest"
    using iter_kill_first [OF q inp] Suc.prems(2) by blast
  have reg: "pids s' = tl (pids s)"
    using iter_pids [OF Suc.prems(1) s'(1)] s'(2,3) Suc.hyps(2)
    by (cases "pids s") (simp_all add: remove_nth_def)
  have snt: "sent s' = sent s @ [(hd (pids s), SIGKILL)]"
    using iter_sent [OF s'(1), of s'] s'(2,3) Suc.prems(2) Suc.hyps(2)
    by (cases "pids s") (simp_all add: action_sig_def)
  have "ctl_inv s'" by (rule iter_inv [OF Suc.prems(1) s'(1)])
  moreover have "n = length (pids s')" using reg Suc.hyps(2) by simp
  ultimately obtain t where t: "ctl_loop env s' = Some (Inr (0, t))" "pids t = []" "input t = rest"
      "sent t = sent s' @ map (\<lambda>p. (p, SIGKILL)) (pids s')"
    using Suc.hyps(1) Suc.prems(2) s'(4) by blast
  have "ctl_loop env s = ctl_loop env s'" using q s'(1) by (simp add: ctl_loop_run)
  with t reg snt Suc.hyps(2) show ?case by (cases "pids s") auto
qed

theorem ctl_loop_kill_all_witness:
  "\<exists>t. ctl_loop good_env ((ctl_init (kill_all_input 2))\<lparr>qty := 2, pids := [111, 222]\<rparr>)
          = Some (Inr (0, t))
        \<and> pids t = [] \<and> sent t = [(111, SIGKILL), (222, SIGKILL)]"
proof -
  let ?s = "(ctl_init (kill_all_input 2))\<lparr>qty := 2, pids := [111, 222]\<rparr>"
  have h: "ctl_inv ?s" "\<forall>n. fork_ok good_env n \<and> realloc_ok good_env n"
      "input ?s = kill_all_input (length (pids ?s)) @ []"
    by (simp_all add: ctl_inv_def ctl_init_def good_env_def eval_nat_numeral)
  from ctl_loop_kill_all [OF h] show ?thesis by (fastforce simp: ctl_init_def)
qed

text \<open>
  C10. At end of input \<^verbatim>\<open>scanf\<close> leaves \<^verbatim>\<open>spec_counter\<close> and
  \<^verbatim>\<open>selection\<close> unchanged, so after a valid index and an action other than kill
  the loop repeats that action forever: the controller never returns.
\<close>

theorem ctl_loop_eof_diverges: "eof_repeat s \<Longrightarrow> ctl_loop env s = None"
proof -
  have "\<forall>e s y. ctl_loop e s = Some y \<longrightarrow> e = env \<longrightarrow> \<not> eof_repeat s"
  proof (induction rule: ctl_loop.fixp_induct)
    case 1
    have eq: "(\<lambda>f. \<forall>e s y. curry f e s = Some y \<longrightarrow> e = env \<longrightarrow> \<not> eof_repeat s) =
          (\<lambda>f. \<forall>x y. f x = Some y \<longrightarrow> (fst x = env \<longrightarrow> \<not> eof_repeat (snd x)))"
      by (auto simp: fun_eq_iff)
    show ?case unfolding eq by (rule option_admissible)
  next
    case 2
    show ?case by simp
  next
    case (3 f)
    show ?case
    proof (intro allI impI notI)
      fix e s y
      assume h: "(if 0 < qty s then case ctl_iter e s of Inl e' \<Rightarrow> Some (Inl e')
                   | Inr (Continue s') \<Rightarrow> f e s' | Inr (Exit c s') \<Rightarrow> Some (Inr (c, s'))
                  else Some (Inr (0, s\<lparr>stdout := stdout s @ [Goodbye]\<rparr>)))
                 = Some y" and "e = env" and r: "eof_repeat s"
      from eof_repeat_iter [OF r, of env] obtain s' where
        "0 < qty s" "ctl_iter env s = Inr (Continue s')" "eof_repeat s'" by blast
      with h \<open>e = env\<close> 3 show False by auto
    qed
  qed
  then show "eof_repeat s \<Longrightarrow> ctl_loop env s = None" by (cases "ctl_loop env s") auto
qed

theorem ctl_loop_eof_diverges_witness: "controller_main good_env [2, 111, 222, 1, 3] = None"
proof -
  let ?s0 = "(ctl_init [1, 3])\<lparr>qty := 2, pids := [111, 222], stdout := [Welcome, InsertPids]\<rparr>"
  have start: "controller_main good_env [2, 111, 222, 1, 3] = ctl_loop good_env ?s0"
    by (simp add: controller_main_def ctl_init_def read_qty_Cons read_pids_loop_step
        read_pids_loop_stop good_env_def eval_nat_numeral)
  obtain s1 where e: "ctl_iter good_env ?s0 = Inr (Continue s1)" and r: "eof_repeat s1"
    by (auto simp: ctl_iter_def ctl_init_def Let_def action_sig_def fork_kill_def eof_repeat_def)
  have "ctl_loop good_env ?s0 = ctl_loop good_env s1"
    using e by (simp add: ctl_loop_run ctl_init_def)
  with start ctl_loop_eof_diverges [OF r] show ?thesis by simp
qed

text \<open>
  C13. For a valid quantity \<open>q\<close> and \<open>q\<close> identifiers, start-up stores exactly
  those identifiers, in input order, as the registry of size \<open>q\<close> and enters the
  interaction loop on the rest of the input.
\<close>

theorem controller_startup:
  assumes "0 \<le> q" and "q \<le> 5" and "length ids = nat q" and "malloc_ok env (nat q)"
  shows "controller_main env (q # ids @ rest) =
           ctl_loop env ((ctl_init rest)\<lparr>qty := q, pids := ids, stdout := [Welcome, InsertPids]\<rparr>)"
proof -
  let ?s1 = "(ctl_init (q # ids @ rest))\<lparr>stdout := [Welcome], qty := q, input := ids @ rest\<rparr>"
  have r: "read_qty (ctl_init (q # ids @ rest)) = ?s1"
    using assms(1,2) by (simp add: read_qty_Cons ctl_init_def)
  let ?s2 = "?s1\<lparr>pids := map (garbage env) [0..<nat q], stdout := [Welcome, InsertPids]\<rparr>"
  have "read_pids_loop 0 ?s2 = ?s2\<lparr>pids := ids, input := rest\<rparr>"
    using assms(1,3) by (simp add: read_pids_loop_eq ctl_init_def)
  then show ?thesis using r assms(4) by (simp add: controller_main_def ctl_init_def)
qed

theorem controller_startup_witness:
  "controller_main good_env [2, 111, 222, 1, 3] =
     ctl_loop good_env ((ctl_init [1, 3])\<lparr>qty := 2, pids := [111, 222], stdout := [Welcome, InsertPids]\<rparr>)"
  using controller_startup [of 2 "[111, 222]" good_env "[1, 3]"] by (simp add: good_env_def)

text \<open>
  C14. The in-place compaction loop of the kill action, followed by shrinking the
  array by one, computes the list without entry \<open>k\<close>.
\<close>

theorem compact_remove_nth:
  "k < length xs \<Longrightarrow> take (length xs - 1) (shift_loop k (length xs) xs) = remove_nth k xs"
  by (simp add: shift_loop_remove_nth)

theorem compact_remove_nth_witness:
  "take 2 (shift_loop 0 3 [111, 222, 333]) = [222, 333]"
  using compact_remove_nth [of 0 "[111, 222, 333]"] by (simp add: remove_nth_def eval_nat_numeral)

text \<open>
  C16. When \<^verbatim>\<open>realloc\<close> fails after a kill that leaves entries, the controller
  has already handed \<^verbatim>\<open>SIGKILL\<close> to the child (when \<^verbatim>\<open>fork\<close> succeeded),
  prints the failure and leaves the loop with status 1.
\<close>

theorem ctl_loop_realloc_fails:
  assumes "input s = k # 5 # rest" and "1 \<le> k" and "k \<le> qty s" and "1 < qty s"
    and "\<not> realloc_ok env (nat (qty s - 1))"
  shows "\<exists>t. ctl_loop env s = Some (Inr (1, t)) \<and> qty t = qty s - 1 \<and> last (stdout t) = ReallocFailed
             \<and> sent t = sent s @ (if fork_ok env (forks s) then [(pids s ! nat (k - 1), SIGKILL)] else [])"
proof -
  have "0 < qty s" using assms(4) by simp
  then show ?thesis
    using assms by (simp add: ctl_loop_run ctl_iter_def Let_def fork_kill_def action_sig_def)
qed

theorem ctl_loop_realloc_fails_witness:
  "\<exists>t. ctl_loop (good_env\<lparr>realloc_ok := \<lambda>_. False\<rparr>) ((ctl_init [2, 5])\<lparr>qty := 3, pids := [111, 222, 333]\<rparr>)
          = Some (Inr (1, t))
        \<and> qty t = 2 \<and> last (stdout t) = ReallocFailed \<and> sent t = [(222, SIGKILL)]"
  using ctl_loop_realloc_fails [of "(ctl_init [2, 5])\<lparr>qty := 3, pids := [111, 222, 333]\<rparr>" 2 "[]"
      "good_env\<lparr>realloc_ok := \<lambda>_. False\<rparr>"]
  by (simp add: ctl_init_def good_env_def)

text \<open>
  C17. When \<^verbatim>\<open>fork\<close> fails on a kill, no signal is sent, yet the entry is
  removed from the registry all the same: the process keeps running but the
  controller no longer lists it.
\<close>

theorem ctl_iter_kill_fork_fails:
  assumes "ctl_inv s" and "input s = k # 5 # rest" and "1 \<le> k" and "k \<le> qty s"
    and "\<not> fork_ok env (forks s)" and "realloc_ok env (nat (qty s - 1))"
  shows "\<exists>t. ctl_iter env s = Inr (Continue t) \<and> sent t = sent s
             \<and> pids t = remove_nth (nat (k - 1)) (pids s)"
proof -
  obtain t where t: "ctl_iter env s = Inr (Continue t)" "spec_counter t = k" "selection t = 5"
      "sent t = sent s"
    using assms(2-6) by (simp add: ctl_iter_def Let_def fork_kill_def action_sig_def)
  with iter_pids [OF assms(1) t(1)] show ?thesis by auto
qed

theorem ctl_iter_kill_fork_fails_witness:
  "\<exists>t. ctl_iter (good_env\<lparr>fork_ok := \<lambda>_. False\<rparr>) ((ctl_init [1, 5])\<lparr>qty := 2, pids := [111, 222]\<rparr>)
          = Inr (Continue t)
        \<and> sent t = [] \<and> pids t = [222]"
proof -
  have h: "ctl_inv ((ctl_init [1, 5])\<lparr>qty := 2, pids := [111, 222]\<rparr>)"
    by (simp add: ctl_inv_def ctl_init_def)
  from ctl_iter_kill_fork_fails [OF h, of 1 "[]" "good_env\<lparr>fork_ok := \<lambda>_. False\<rparr>"] show ?thesis
    by (simp add: ctl_init_def good_env_def remove_nth_def)
qed

end
