(* ===== verification/Registry.thy ===== *)
theory Registry
  imports Controller
begin

text \<open>
  Abstract specification of the controller's registry of counter processes
  (the \<^verbatim>\<open>pids\<close> array of \<^verbatim>\<open>src/Signals/src/handler.c\<close>) and the
  refinement of the controller loop onto it. The registry is a list of pids
  and the log of signals handed out; its operations are \<open>SignalOp k g\<close>
  (send \<open>g\<close> to the entry at 0-based \<open>k\<close>) and \<open>TerminateOp k\<close> (send
  \<^verbatim>\<open>SIGKILL\<close> to entry \<open>k\<close> and remove it, the others keeping their order).
  \<open>iter_op\<close> reads off which operation one controller iteration performs,
  \<open>ctl_trace\<close> is a run of iterations with the operations it performs, and
  the lemmas show that each run of the controller that ends with status 0 is a
  valid run of the registry, and what follows from that.
\<close>

section \<open>Registry operations\<close>

datatype reg_op = SignalOp nat sig | TerminateOp nat

type_synonym reg = "pid list \<times> (pid \<times> sig) list"

fun reg_step :: "reg \<Rightarrow> reg_op \<Rightarrow> reg" where
  "reg_step (xs, out) (SignalOp k g) = (xs, out @ [(xs ! k, g)])"
| "reg_step (xs, out) (TerminateOp k) = (remove_nth k xs, out @ [(xs ! k, SIGKILL)])"

fun reg_ok :: "pid list \<Rightarrow> reg_op \<Rightarrow> bool" where
  "reg_ok xs (SignalOp k g) \<longleftrightarrow> k < length xs \<and> g \<noteq> SIGKILL"
| "reg_ok xs (TerminateOp k) \<longleftrightarrow> k < length xs"

fun reg_run :: "reg \<Rightarrow> reg_op list \<Rightarrow> reg" where
  "reg_run r [] = r"
| "reg_run r (op # ops) = reg_run (reg_step r op) ops"

fun reg_valid :: "pid list \<Rightarrow> reg_op list \<Rightarrow> bool" where
  "reg_valid xs [] = True"
| "reg_valid xs (op # ops) \<longleftrightarrow> reg_ok xs op \<and> reg_valid (fst (reg_step (xs, []) op)) ops"

text \<open>
  The signals of a log that are kills, by target: what each removal of a
  registry entry is paired with.
\<close>

definition killed :: "(pid \<times> sig) list \<Rightarrow> pid list" where
  "killed out = [fst e. e \<leftarrow> out, snd e = SIGKILL]"

section \<open>The controller as a registry\<close>

definition abs_ctl :: "ctl \<Rightarrow> reg" where
  "abs_ctl s = (pids s, sent s)"

definition iter_op :: "ctl \<Rightarrow> reg_op list" where
  "iter_op t =
     (case action_sig (selection t) of
        None \<Rightarrow> []
      | Some g \<Rightarrow> [if g = SIGKILL then TerminateOp (nat (spec_counter t - 1))
                   else SignalOp (nat (spec_counter t - 1)) g])"

inductive ctl_trace :: "cenv \<Rightarrow> ctl \<Rightarrow> reg_op list \<Rightarrow> ctl \<Rightarrow> bool" for env where
  finish: "ctl_trace env s [] s"
| iter: "0 < qty s \<Longrightarrow> ctl_iter env s = Inr (Continue s') \<Longrightarrow> ctl_trace env s' ops t \<Longrightarrow>
           ctl_trace env s (iter_op s' @ ops) t"

section \<open>Lemmas on registry runs\<close>

lemma fst_reg_step: "fst (reg_step (xs, out) op) = fst (reg_step (xs, []) op)"
  by (cases op) simp_all

lemma reg_run_append: "reg_run r (ops @ ops') = reg_run (reg_run r ops) ops'"
  by (induction ops arbitrary: r) simp_all

lemma fst_reg_run_indep: "fst (reg_run (xs, out) ops) = fst (reg_run (xs, out') ops)"
proof (induction ops arbitrary: xs out out')
  case Nil
  then show ?case by simp
next
  case (Cons op ops)
  then show ?case by (cases op) simp_all
qed

lemmas fst_reg_run = fst_reg_run_indep [where out' = "[]"]

lemma reg_valid_append:
  "reg_valid xs (ops @ ops') \<longleftrightarrow> reg_valid xs ops \<and> reg_valid (fst (reg_run (xs, []) ops)) ops'"
proof (induction ops arbitrary: xs)
  case Nil
  then show ?case by simp
next
  case (Cons op ops)
  then show ?case by (cases op) (simp_all add: fst_reg_run [of _ "[(_, _)]"])
qed

lemma reg_run_conserves:
  "reg_valid xs ops \<Longrightarrow> reg_run (xs, out) ops = (ys, out') \<Longrightarrow>
     \<exists>new. out' = out @ new \<and> fst ` set new \<subseteq> set xs \<and> subseq ys xs
           \<and> mset xs = mset ys + mset (killed new)"
proof (induction ops arbitrary: xs out)
  case Nil
  then show ?case by (simp add: killed_def)
next
  case (Cons op ops)
  show ?case
  proof (cases op)
    case (SignalOp k g)
    have v: "reg_valid xs ops" and g: "g \<noteq> SIGKILL"
      using Cons.prems(1) SignalOp by simp_all
    have r: "reg_run (xs, out @ [(xs ! k, g)]) ops = (ys, out')"
      using Cons.prems(2) SignalOp by simp
    obtain new where n: "out' = (out @ [(xs ! k, g)]) @ new" "fst ` set new \<subseteq> set xs"
        "subseq ys xs" "mset xs = mset ys + mset (killed new)"
      using Cons.IH [OF v r] by blast
    have "xs ! k \<in> set xs" using Cons.prems(1) SignalOp by simp
    with n g show ?thesis
      by (intro exI [of _ "(xs ! k, g) # new"]) (simp add: killed_def)
  next
    case (TerminateOp k)
    let ?xs' = "remove_nth k xs"
    have k: "k < length xs" and v: "reg_valid ?xs' ops"
      using Cons.prems(1) TerminateOp by simp_all
    have r: "reg_run (?xs', out @ [(xs ! k, SIGKILL)]) ops = (ys, out')"
      using Cons.prems(2) TerminateOp by simp
    obtain new where n: "out' = (out @ [(xs ! k, SIGKILL)]) @ new"
        "fst ` set new \<subseteq> set ?xs'" "subseq ys ?xs'" "mset ?xs' = mset ys + mset (killed new)"
      using Cons.IH [OF v r] by blast
    have "subseq ys xs" by (rule subseq_order.trans [OF n(3) subseq_remove_nth])
    moreover have "fst ` set new \<subseteq> set xs" by (rule order.trans [OF n(2) set_remove_nth])
    moreover have "mset xs = mset ys + mset (killed ((xs ! k, SIGKILL) # new))"
      using mset_remove_nth [OF k] n(4) by (simp add: killed_def)
    ultimately show ?thesis using n(1) k
      by (intro exI [of _ "(xs ! k, SIGKILL) # new"]) simp
  qed
qed

lemma iter_refines:
  assumes "ctl_inv s" and "\<forall>n. fork_ok env n" and "ctl_iter env s = Inr (Continue s')"
  shows "abs_ctl s' = reg_run (abs_ctl s) (iter_op s') \<and> reg_valid (pids s) (iter_op s')"
proof -
  have p: "pids s' = (if selection s' = 5 then remove_nth (nat (spec_counter s' - 1)) (pids s) else pids s)"
    using iter_pids [OF assms(1,3)] by simp
  have snt: "sent s' = sent s @ (case action_sig (selection s') of None \<Rightarrow> []
             | Some g \<Rightarrow> [(pids s ! nat (spec_counter s' - 1), g)])"
    using iter_sent [OF assms(3), of s'] assms(2) by (simp split: option.splits)
  have k: "nat (spec_counter s' - 1) < length (pids s)"
    using iter_index [OF assms(3)] assms(1) by (simp add: ctl_inv_def)
  show ?thesis
    using p snt k by (auto simp: abs_ctl_def iter_op_def action_sig_def split: if_splits)
qed

lemma ctl_trace_refines:
  "ctl_trace env s ops t \<Longrightarrow> ctl_inv s \<Longrightarrow> \<forall>n. fork_ok env n \<Longrightarrow>
     abs_ctl t = reg_run (abs_ctl s) ops \<and> reg_valid (pids s) ops"
proof (induction rule: ctl_trace.induct)
  case (finish s)
  then show ?case by simp
next
  case (iter s s' ops t)
  have r1: "abs_ctl s' = reg_run (abs_ctl s) (iter_op s')" and v1: "reg_valid (pids s) (iter_op s')"
    using iter_refines [OF iter.prems(1,2) iter.hyps(2)] by simp_all
  have "ctl_inv s'" by (rule iter_inv [OF iter.prems(1) iter.hyps(2)])
  with iter.IH iter.prems(2) have r2: "abs_ctl t = reg_run (abs_ctl s') ops" and v2: "reg_valid (pids s') ops"
    by simp_all
  have f: "fst (reg_run (pids s, []) (iter_op s')) = pids s'"
    using r1 fst_reg_run [of "pids s" "sent s" "iter_op s'"] by (simp add: abs_ctl_def prod_eq_iff)
  show ?case
    using r1 r2 v1 v2 f by (simp add: reg_run_append reg_valid_append)
qed

lemma iter_exit_code: "ctl_iter env s = Inr (Exit c s') \<Longrightarrow> c = 1"
proof -
  assume e: "ctl_iter env s = Inr (Exit c s')"
  obtain k inp1 where k: "scan_int (spec_counter s) (input s) = (k, inp1)" by fastforce
  obtain sel inp2 where sel: "scan_int (selection s) inp1 = (sel, inp2)" by fastforce
  show "c = 1"
    using e k sel by (auto simp: ctl_iter_def Let_def split: option.splits if_splits)
qed

lemma ctl_loop_trace:
  assumes "ctl_loop env s = Some r"
  shows "\<forall>t. r = Inr (0, t) \<longrightarrow>
           (\<exists>ops t'. ctl_trace env s ops t' \<and> qty t' \<le> 0 \<and> t = t'\<lparr>stdout := stdout t' @ [Goodbye]\<rparr>)"
proof (rule ctl_loop.raw_induct [where P = "\<lambda>env s r. \<forall>t. r = Inr (0, t) \<longrightarrow>
           (\<exists>ops t'. ctl_trace env s ops t' \<and> qty t' \<le> 0 \<and> t = t'\<lparr>stdout := stdout t' @ [Goodbye]\<rparr>)",
       OF _ assms])
  fix f :: "cenv \<Rightarrow> ctl \<Rightarrow> (cerr + int \<times> ctl) option" and env s r
  assume IH: "\<And>env s r. f env s = Some r \<Longrightarrow> \<forall>t. r = Inr (0, t) \<longrightarrow>
           (\<exists>ops t'. ctl_trace env s ops t' \<and> qty t' \<le> 0 \<and> t = t'\<lparr>stdout := stdout t' @ [Goodbye]\<rparr>)"
    and eq: "(if 0 < qty s
      then case ctl_iter env s of Inl e \<Rightarrow> Some (Inl e)
           | Inr (Continue s') \<Rightarrow> f env s'
           | Inr (Exit c s') \<Rightarrow> Some (Inr (c, s'))
      else Some (Inr (0, s\<lparr>stdout := stdout s @ [Goodbye]\<rparr>))) = Some r"
  show "\<forall>t. r = Inr (0, t) \<longrightarrow>
           (\<exists>ops t'. ctl_trace env s ops t' \<and> qty t' \<le> 0 \<and> t = t'\<lparr>stdout := stdout t' @ [Goodbye]\<rparr>)"
  proof (intro allI impI)
    fix t assume r: "r = Inr (0, t)"
    show "\<exists>ops t'. ctl_trace env s ops t' \<and> qty t' \<le> 0 \<and> t = t'\<lparr>stdout := stdout t' @ [Goodbye]\<rparr>"
    proof (cases "0 < qty s")
      case False
      then have "t = s\<lparr>stdout := stdout s @ [Goodbye]\<rparr>" using eq r by simp
      then show ?thesis using False ctl_trace.finish [of env s]
        by (intro exI [of _ "[]"] exI [of _ s]) simp
    next
      case True
      then obtain s' where it: "ctl_iter env s = Inr (Continue s')" and f: "f env s' = Some r"
        using eq r by (auto split: sum.splits iter_res.splits dest: iter_exit_code)
      from IH [OF f] r obtain ops t' where "ctl_trace env s' ops t'" "qty t' \<le> 0"
          "t = t'\<lparr>stdout := stdout t' @ [Goodbye]\<rparr>" by blast
      then show ?thesis using ctl_trace.iter [OF True it] by blast
    qed
  qed
qed

section \<open>Refinement of controller runs\<close>

text \<open>
  C18. Every run of the controller loop from a well-formed state that ends with
  status 0, with \<^verbatim>\<open>fork\<close> always succeeding, is a valid run of the abstract
  registry: its final pid array and signal log are those of a sequence of
  registry operations, each on an entry that exists and each kill removing
  just that entry.
\<close>

theorem ctl_loop_refines_registry:
  assumes "ctl_loop env s = Some (Inr (0, t))" and "ctl_inv s" and "\<forall>n. fork_ok env n"
  shows "\<exists>ops. (pids t, sent t) = reg_run (pids s, sent s) ops \<and> reg_valid (pids s) ops"
proof -
  obtain ops t' where tr: "ctl_trace env s ops t'" and t: "t = t'\<lparr>stdout := stdout t' @ [Goodbye]\<rparr>"
    using ctl_loop_trace [OF assms(1)] by blast
  from ctl_trace_refines [OF tr assms(2,3)] t show ?thesis by (auto simp: abs_ctl_def)
qed

theorem ctl_loop_refines_registry_witness:
  "\<exists>t. ctl_loop good_env ((ctl_init (kill_all_input 2))\<lparr>qty := 2, pids := [111, 222]\<rparr>) = Some (Inr (0, t))
        \<and> (\<exists>ops. (pids t, sent t) = reg_run ([111, 222], []) ops \<and> reg_valid [111, 222] ops)"
proof -
  let ?s = "(ctl_init (kill_all_input 2))\<lparr>qty := 2, pids := [111, 222]\<rparr>"
  obtain t where t: "ctl_loop good_env ?s = Some (Inr (0, t))"
    by (simp add: ctl_eval kill_all_input_def eval_nat_numeral)
  have "ctl_inv ?s" by (simp add: ctl_inv_def ctl_init_def)
  from ctl_loop_refines_registry [OF t this] t show ?thesis
    by (simp add: good_env_def ctl_init_def)
qed

text \<open>
  C19. What a run of the controller that ends with status 0 does to its
  registry: it only appends to the signal log, every signal goes to a pid that
  was registered at the start, the remaining pids keep their order, and the
  registered pids are exactly those still listed plus those that were sent
  \<^verbatim>\<open>SIGKILL\<close>, each once.
\<close>

theorem ctl_loop_registry_conserved:
  assumes "ctl_loop env s = Some (Inr (0, t))" and "ctl_inv s" and "\<forall>n. fork_ok env n"
  shows "\<exists>new. sent t = sent s @ new \<and> fst ` set new \<subseteq> set (pids s) \<and> subseq (pids t) (pids s)
               \<and> mset (pids s) = mset (pids t) + mset (killed new)"
proof -
  obtain ops t' where tr: "ctl_trace env s ops t'" and t: "t = t'\<lparr>stdout := stdout t' @ [Goodbye]\<rparr>"
    using ctl_loop_trace [OF assms(1)] by blast
  from ctl_trace_refines [OF tr assms(2,3)] t
  have "reg_valid (pids s) ops" "reg_run (pids s, sent s) ops = (pids t, sent t)"
    by (simp_all add: abs_ctl_def)
  then show ?thesis by (rule reg_run_conserves)
qed

theorem ctl_loop_registry_conserved_witness:
  "\<exists>t. ctl_loop good_env ((ctl_init [1, 5, 1, 1, 1, 5])\<lparr>qty := 2, pids := [111, 222]\<rparr>) = Some (Inr (0, t))
        \<and> (\<exists>new. sent t = new \<and> fst ` set new \<subseteq> {111, 222} \<and> subseq (pids t) [111, 222]
               \<and> mset [111, 222] = mset (pids t) + mset (killed new))"
proof -
  let ?s = "(ctl_init [1, 5, 1, 1, 1, 5])\<lparr>qty := 2, pids := [111, 222]\<rparr>"
  obtain t where t: "ctl_loop good_env ?s = Some (Inr (0, t))"
    by (simp add: ctl_eval)
  have "ctl_inv ?s" by (simp add: ctl_inv_def ctl_init_def)
  from ctl_loop_registry_conserved [OF t this] t show ?thesis
    by (simp add: good_env_def ctl_init_def)
qed

end
