(* ===== verification/Console.thy ===== *)
theory Console
  imports Counter Controller
begin

text \<open>
  The text both programs write. The counter's \<^verbatim>\<open>printf\<close> of
  \<^verbatim>\<open>counter.c\<close> line 34 and every \<^verbatim>\<open>printf\<close> and \<^verbatim>\<open>perror\<close> of
  \<^verbatim>\<open>handler.c\<close> are rendered as character strings, with the \<^verbatim>\<open>%d\<close>
  conversion as \<open>fmt_int\<close>. The state models of \<open>Counter\<close> and \<open>Controller\<close>
  record what is printed as values (\<open>out\<close>, \<open>stdout\<close>); this theory turns those
  values into the bytes on the terminal and gives parsers for the two formats
  an operator reads (the counter's line and the controller's numbered
  registry listing), with round-trip lemmas showing that the printed text
  determines the printed values.
\<close>

section \<open>The \<^verbatim>\<open>%d\<close> conversion\<close>

definition NL :: char where "NL = CHR 0x0A"

definition QUOTE :: char where "QUOTE = CHR 0x27"

definition digit_char :: "nat \<Rightarrow> char" where
  "digit_char d = char_of (48 + d)"

fun fmt_nat :: "nat \<Rightarrow> string" where
  "fmt_nat n = (if n < 10 then [digit_char n] else fmt_nat (n div 10) @ [digit_char (n mod 10)])"

declare fmt_nat.simps [simp del]

text \<open>\<^verbatim>\<open>printf("%d", v)\<close>: a minus sign for negative values, then the decimal digits.\<close>

definition fmt_int :: "int \<Rightarrow> string" where
  "fmt_int v = (if v < 0 then CHR ''-'' # fmt_nat (nat (- v)) else fmt_nat (nat v))"

section \<open>Reading the text back\<close>

definition is_digit :: "char \<Rightarrow> bool" where
  "is_digit c \<longleftrightarrow> 48 \<le> (of_char c :: nat) \<and> (of_char c :: nat) < 58"

definition digits_val :: "string \<Rightarrow> nat" where
  "digits_val cs = foldl (\<lambda>n c. 10 * n + (of_char c - 48)) 0 cs"

definition parse_nat :: "string \<Rightarrow> nat option" where
  "parse_nat cs = (if cs \<noteq> [] \<and> list_all is_digit cs then Some (digits_val cs) else None)"

fun parse_int :: "string \<Rightarrow> int option" where
  "parse_int [] = None"
| "parse_int (c # cs) =
     (if c = CHR ''-'' then map_option (\<lambda>n. - int n) (parse_nat cs) else map_option int (parse_nat (c # cs)))"

text \<open>
  Splitting a text at its newlines; the characters after the last newline, if
  any, form a last line of their own.
\<close>

function split_lines_aux :: "string \<Rightarrow> string \<Rightarrow> string list" where
  "split_lines_aux acc [] = (if acc = [] then [] else [acc])"
| "split_lines_aux acc (c # cs) =
     (if c = NL then acc # split_lines_aux [] cs else split_lines_aux (acc @ [c]) cs)"
  by pat_completeness auto
termination by (relation "measure (\<lambda>(acc, cs). length cs)") auto

definition split_lines :: "string \<Rightarrow> string list" where
  "split_lines t = split_lines_aux [] t"

section \<open>The counter's line\<close>

text \<open>\<^verbatim>\<open>printf("current count is '%d' : %d\n", i, getpid())\<close>.\<close>

definition count_prefix :: string where
  "count_prefix = ''current count is '' @ [QUOTE]"

definition counter_line :: "int \<times> pid \<Rightarrow> string" where
  "counter_line vp = count_prefix @ fmt_int (fst vp) @ [QUOTE] @ '' : '' @ fmt_int (snd vp) @ [NL]"

definition counter_text :: "('a) cstate_scheme \<Rightarrow> string" where
  "counter_text s = concat (map counter_line (out s))"

definition parse_counter_line :: "string \<Rightarrow> (int \<times> pid) option" where
  "parse_counter_line l =
     (if take (length count_prefix) l \<noteq> count_prefix then None
      else let r = drop (length count_prefix) l;
               v = takeWhile (\<lambda>c. c \<noteq> QUOTE) r;
               r2 = drop (length v) r
           in if take 4 r2 \<noteq> QUOTE # '' : '' then None
              else case (parse_int v, parse_int (drop 4 r2)) of
                     (Some a, Some b) \<Rightarrow> Some (a, b)
                   | _ \<Rightarrow> None)"

definition parse_counter_text :: "string \<Rightarrow> (int \<times> pid) list option" where
  "parse_counter_text t = those (map parse_counter_line (split_lines t))"

section \<open>The controller's messages\<close>

text \<open>\<^verbatim>\<open>printf("%d) %d\n", i + 1, pids[i])\<close>, one line of the registry listing.\<close>

definition listing_line :: "int \<times> pid \<Rightarrow> string" where
  "listing_line kp = fmt_int (fst kp) @ '') '' @ fmt_int (snd kp) @ [NL]"

definition listing_text :: "(int \<times> pid) list \<Rightarrow> string" where
  "listing_text xs = concat (map listing_line xs)"

definition parse_listing_line :: "string \<Rightarrow> (int \<times> pid) option" where
  "parse_listing_line l =
     (let a = takeWhile (\<lambda>c. c \<noteq> CHR '')'') l;
          r = drop (length a) l
      in if take 2 r \<noteq> '') '' then None
         else case (parse_int a, parse_int (drop 2 r)) of
                (Some k, Some p) \<Rightarrow> Some (k, p)
              | _ \<Rightarrow> None)"

definition parse_listing :: "string \<Rightarrow> (int \<times> pid) list option" where
  "parse_listing t = those (map parse_listing_line (split_lines t))"

text \<open>
  \<^verbatim>\<open>printf\<close> writes to standard output, \<^verbatim>\<open>perror\<close> to standard error,
  followed by \<^verbatim>\<open>": "\<close>, the text of \<^verbatim>\<open>errno\<close> (the parameter \<open>err\<close>) and a
  newline.
\<close>

datatype stream = Stdout | Stderr

fun msg_stream :: "msg \<Rightarrow> stream" where
  "msg_stream AllocFailed = Stderr"
| "msg_stream ReallocFailed = Stderr"
| "msg_stream _ = Stdout"

definition select_prompt :: string where
  "select_prompt = ''Select the instance of the infinite counter you wish to interact with: '' @ [NL]"

definition function_menu :: string where
  "function_menu = ''Now select the function you wish to execute:'' @ [NL] @ ''1) Stop'' @ [NL]
     @ ''2) Continue'' @ [NL] @ ''3) Change the counting direction'' @ [NL] @ ''4) Reset counter'' @ [NL]
     @ ''5) Kill'' @ [NL]"

fun msg_text :: "string \<Rightarrow> msg \<Rightarrow> string" where
  "msg_text err Welcome =
     ''Hello and welcome to the infinite counter handler, please indicate the amount (up to 5) of infinite counters you would like to have running: '' @ [NL]"
| "msg_text err WrongOption = ''You have input a wrong option please try again.''"
| "msg_text err InsertPids = ''Please insert the PID of the programs you wish to handle separated by spaces: '' @ [NL]"
| "msg_text err (SelectInstance xs) = select_prompt @ listing_text xs"
| "msg_text err FunctionMenu = function_menu"
| "msg_text err AllocFailed = ''Failed to allocate memory: '' @ err @ [NL]"
| "msg_text err ReallocFailed = ''Failed to reallocate memory: '' @ err @ [NL]"
| "msg_text err Goodbye = ''No more Infinite counter programs found, exiting the program, Good bye.''"

definition stream_text :: "stream \<Rightarrow> string \<Rightarrow> msg list \<Rightarrow> string" where
  "stream_text st err ms = concat (map (msg_text err) (filter (\<lambda>m. msg_stream m = st) ms))"

section \<open>Lemmas on the decimal conversion\<close>

lemma fmt_nat_small: "n < 10 \<Longrightarrow> fmt_nat n = [digit_char n]"
  by (simp add: fmt_nat.simps)

lemma fmt_nat_step: "10 \<le> n \<Longrightarrow> fmt_nat n = fmt_nat (n div 10) @ [digit_char (n mod 10)]"
  by (subst fmt_nat.simps) simp

lemmas fmt_eval = fmt_int_def fmt_nat_small fmt_nat_step digit_char_def char_of_def bit_0 NL_def QUOTE_def

lemma of_char_digit [simp]: "d < 10 \<Longrightarrow> of_char (digit_char d) = 48 + d"
  by (simp add: digit_char_def)

lemma is_digit_digit_char [simp]: "d < 10 \<Longrightarrow> is_digit (digit_char d)"
  by (simp add: is_digit_def)

lemma fmt_nat_not_Nil [simp]: "fmt_nat n \<noteq> []"
  by (subst fmt_nat.simps) simp

lemma fmt_nat_digits: "list_all is_digit (fmt_nat n)"
proof (induction n rule: fmt_nat.induct)
  case (1 n)
  then show ?case by (cases "n < 10") (simp_all add: fmt_nat_small fmt_nat_step)
qed

lemma digits_val_snoc: "digits_val (cs @ [c]) = 10 * digits_val cs + (of_char c - 48)"
  by (simp add: digits_val_def)

lemma digits_val_fmt_nat: "digits_val (fmt_nat n) = n"
proof (induction n rule: fmt_nat.induct)
  case (1 n)
  show ?case
  proof (cases "n < 10")
    case True
    then show ?thesis by (simp add: fmt_nat_small digits_val_def)
  next
    case False
    then show ?thesis using 1 by (simp add: fmt_nat_step digits_val_snoc)
  qed
qed

lemma parse_nat_fmt_nat: "parse_nat (fmt_nat n) = Some n"
  by (simp add: parse_nat_def fmt_nat_digits digits_val_fmt_nat)

lemma minus_not_digit [simp]: "\<not> is_digit (CHR ''-'')"
  by (simp add: is_digit_def)

lemma parse_int_fmt_int [simp]: "parse_int (fmt_int v) = Some v"
proof (cases "v < 0")
  case True
  then show ?thesis by (simp add: fmt_int_def parse_nat_fmt_nat)
next
  case False
  obtain c cs where c: "fmt_nat (nat v) = c # cs" by (cases "fmt_nat (nat v)") simp_all
  then have "is_digit c" using fmt_nat_digits [of "nat v"] by simp
  then have "c \<noteq> CHR ''-''" by auto
  then show ?thesis using False c parse_nat_fmt_nat [of "nat v"] by (simp add: fmt_int_def)
qed

text \<open>The text of \<^verbatim>\<open>%d\<close> is digits and a sign only, so a separator never occurs in it.\<close>

lemma set_fmt_int: "c \<in> set (fmt_int v) \<Longrightarrow> is_digit c \<or> c = CHR ''-''"
  using fmt_nat_digits [of "nat (- v)"] fmt_nat_digits [of "nat v"]
  by (auto simp: fmt_int_def list_all_iff split: if_splits)

lemma separator_not_in_fmt_int [simp]:
  "NL \<notin> set (fmt_int v)" "QUOTE \<notin> set (fmt_int v)" "CHR '')'' \<notin> set (fmt_int v)"
  by (auto dest!: set_fmt_int simp: is_digit_def NL_def QUOTE_def)

lemma NL_not_in_separators [simp]:
  "NL \<notin> set count_prefix" "NL \<noteq> QUOTE" "NL \<noteq> CHR '' ''" "NL \<noteq> CHR '':''" "NL \<noteq> CHR '')''"
  by (simp_all add: count_prefix_def NL_def QUOTE_def)

section \<open>Lemmas on lines\<close>

lemma split_lines_aux_line:
  "NL \<notin> set b \<Longrightarrow> split_lines_aux acc (b @ NL # rest) = (acc @ b) # split_lines_aux [] rest"
  by (induction b arbitrary: acc) auto

lemma split_lines_concat:
  "\<forall>x\<in>set xs. NL \<notin> set (f x) \<Longrightarrow> split_lines (concat (map (\<lambda>x. f x @ [NL]) xs)) = map f xs"
  by (induction xs) (simp_all add: split_lines_def split_lines_aux_line)

lemma those_map_inverse:
  "\<forall>x\<in>set xs. g (f x) = Some x \<Longrightarrow> those (map g (map f xs)) = Some xs"
  by (induction xs) simp_all

lemma takeWhile_neq_append: "x \<notin> set xs \<Longrightarrow> takeWhile (\<lambda>c. c \<noteq> x) (xs @ x # ys) = xs"
  by (induction xs) auto

lemma parse_counter_line_fields:
  "parse_counter_line (count_prefix @ fmt_int a @ [QUOTE] @ '' : '' @ fmt_int b) = Some (a, b)"
  by (simp add: parse_counter_line_def takeWhile_neq_append)

lemma parse_listing_line_fields: "parse_listing_line (fmt_int k @ '') '' @ fmt_int p) = Some (k, p)"
  by (simp add: parse_listing_line_def takeWhile_neq_append)

lemma read_qty_stdout: "\<exists>more. stdout (read_qty s) = stdout s @ Welcome # more"
proof (induction "input s" arbitrary: s)
  case Nil
  then show ?case by (simp add: read_qty_Nil)
next
  case (Cons q rest)
  show ?case
  proof (cases "q > 5 \<or> q < 0")
    case True
    let ?s2 = "s\<lparr>input := rest, stdout := stdout s @ [Welcome, WrongOption], qty := 0\<rparr>"
    obtain more where "stdout (read_qty ?s2) = stdout ?s2 @ Welcome # more"
      using Cons.hyps(1) [of ?s2] by auto
    then show ?thesis using True read_qty_Cons [OF Cons.hyps(2) [symmetric]] by simp
  next
    case False
    then show ?thesis using read_qty_Cons [OF Cons.hyps(2) [symmetric]] by simp
  qed
qed

section \<open>Round trips and the text on the terminal\<close>

text \<open>
  C22. The counter's output can be read back: splitting what
  \<^verbatim>\<open>printf("current count is '%d' : %d\n", ...)\<close> has written at its
  newlines and parsing each line gives exactly the (value, pid) pairs the
  counter printed, in order.
\<close>

theorem counter_text_roundtrip: "parse_counter_text (counter_text s) = Some (out s)"
proof -
  let ?b = "\<lambda>vp. count_prefix @ fmt_int (fst vp) @ [QUOTE] @ '' : '' @ fmt_int (snd vp)"
  have l: "map counter_line (out s) = map (\<lambda>vp. ?b vp @ [NL]) (out s)"
    by (simp add: counter_line_def)
  have nl: "\<forall>x\<in>set (out s). NL \<notin> set (?b x)"
    by simp
  have "\<forall>x\<in>set (out s). parse_counter_line (?b x) = Some x"
    using parse_counter_line_fields by simp
  then show ?thesis
    unfolding parse_counter_text_def counter_text_def l split_lines_concat [OF nl]
    by (rule those_map_inverse)
qed

text \<open>
  C23. The registry listing the controller prints, one
  \<^verbatim>\<open>printf("%d) %d\n", i + 1, pids[i])\<close> per entry, can be read back to
  the (number, pid) pairs it shows.
\<close>

theorem listing_roundtrip: "parse_listing (listing_text xs) = Some xs"
proof -
  let ?b = "\<lambda>kp. fmt_int (fst kp) @ '') '' @ fmt_int (snd kp)"
  have l: "map listing_line xs = map (\<lambda>kp. ?b kp @ [NL]) xs"
    by (simp add: listing_line_def)
  have nl: "\<forall>x\<in>set xs. NL \<notin> set (?b x)"
    by simp
  have "\<forall>x\<in>set xs. parse_listing_line (?b x) = Some x"
    using parse_listing_line_fields by simp
  then show ?thesis
    unfolding parse_listing_def listing_text_def l split_lines_concat [OF nl]
    by (rule those_map_inverse)
qed

text \<open>
  C24. The complaint about a quantity out of range ends without a newline, so
  the repeated welcome prompt is printed on the same line right after it.
\<close>

theorem wrong_option_same_line:
  assumes "input s = q # rest" and "q < 0 \<or> 5 < q"
  shows "sublist (msg_text err WrongOption @ msg_text err Welcome) (stream_text Stdout err (stdout (read_qty s)))
         \<and> NL \<notin> set (msg_text err WrongOption)"
proof -
  let ?s2 = "s\<lparr>input := rest, stdout := stdout s @ [Welcome, WrongOption], qty := 0\<rparr>"
  obtain more where m: "stdout (read_qty ?s2) = stdout ?s2 @ Welcome # more"
    using read_qty_stdout by blast
  have "stdout (read_qty s) = (stdout s @ [Welcome]) @ [WrongOption, Welcome] @ more"
    using m assms read_qty_Cons [OF assms(1)] by auto
  then have e: "stream_text Stdout err (stdout (read_qty s)) =
               stream_text Stdout err (stdout s @ [Welcome])
               @ (msg_text err WrongOption @ msg_text err Welcome) @ stream_text Stdout err more"
    by (simp add: stream_text_def del: msg_text.simps)
  have "NL \<notin> set (msg_text err WrongOption)" by (simp add: NL_def)
  then show ?thesis unfolding e by (blast intro: sublist_appendI)
qed

theorem wrong_option_same_line_witness:
  "sublist (msg_text [] WrongOption @ msg_text [] Welcome) (stream_text Stdout [] (stdout (read_qty (ctl_init [7, 2]))))
   \<and> NL \<notin> set (msg_text [] WrongOption)"
  using wrong_option_same_line [of "ctl_init [7, 2]" 7 "[2]" "[]"] by (simp add: ctl_init_def)

end
