(* ===== verification/System.thy ===== *)
theory System
  imports Counter Controller
begin

text \<open>
  The whole system of the repository as one transition relation: the
  controller of \<^verbatim>\<open>handler.c\<close>, the children it forks, and the counter
  processes of \<^verbatim>\<open>counter.c\<close>, keyed by their pids. A pass of the controller
  loop hands signals to children (the new entries of its \<open>sent\<close> log); each
  child runs detached, at any later time and in any order, and performs one
  \<^verbatim>\<open>kill(p, g)\<close>, which has no effect when no process has id \<open>p\<close>
  (for \<open>p \<le> 0\<close>, \<^verbatim>\<open>kill\<close> signals a process group or every process; such
  children are left pending, as that is not modelled); a
  counter runs its loop and receives its pending signals; and the operator may
  start a new counter at any time, under an id that names no process. The controller never
  reads anything back. The invariant \<open>sys_inv\<close> tracks each id removed from
  the registry until its \<^verbatim>\<open>SIGKILL\<close> has been delivered.
\<close>

record sys =
  sctl :: ctl
  procs :: "pid \<Rightarrow> cstate option"
  inflight :: "(pid \<times> sig) list"

inductive sys_step :: "cenv \<Rightarrow> sys \<Rightarrow> sys \<Rightarrow> bool" for env where
  ctl_pass: "0 < qty (sctl S) \<Longrightarrow> ctl_iter env (sctl S) = Inr (Continue c') \<Longrightarrow>
    sys_step env S (S\<lparr>sctl := c', inflight := inflight S @ drop (length (sent (sctl S))) (sent c')\<rparr>)"
| child: "j < length (inflight S) \<Longrightarrow> inflight S ! j = (p, g) \<Longrightarrow> 0 < p \<Longrightarrow>
    sys_step env S (S\<lparr>procs := (procs S)(p := map_option (kernel_send g) (procs S p)),
                      inflight := remove_nth j (inflight S)\<rparr>)"
| counter_main: "procs S p = Some c \<Longrightarrow>
    sys_step env S (S\<lparr>procs := (procs S)(p \<mapsto> cstep c MainStep)\<rparr>)"
| counter_deliver: "procs S p = Some c \<Longrightarrow>
    sys_step env S (S\<lparr>procs := (procs S)(p \<mapsto> cstep c (Deliver g))\<rparr>)"
| spawn: "procs S p = None \<Longrightarrow>
    sys_step env S (S\<lparr>procs := (procs S)(p \<mapsto> counter_init p)\<rparr>)"

text \<open>A process that no longer runs: absent, or killed.\<close>

fun gone :: "cstate option \<Rightarrow> bool" where
  "gone None = True"
| "gone (Some c) \<longleftrightarrow> status c = Killed"

definition sys_inv :: "pid set \<Rightarrow> sys \<Rightarrow> bool" where
  "sys_inv P0 S \<longleftrightarrow> ctl_inv (sctl S) \<and> set (pids (sctl S)) \<subseteq> P0 \<and> (\<forall>p\<in>P0. procs S p \<noteq> None)
     \<and> (\<forall>p\<in>P0 - set (pids (sctl S)). (p, SIGKILL) \<in> set (inflight S) \<or> gone (procs S p))"

text \<open>
  The system of the specification's scenarios: the controller about to read its
  first index, with registry \<open>[111, 222]\<close>, and two counters that have
  installed their handlers.
\<close>

definition demo_sys :: "int list \<Rightarrow> sys" where
  "demo_sys inp = \<lparr>sctl = (ctl_init inp)\<lparr>qty := 2, pids := [111, 222]\<rparr>,
                    procs = [111 \<mapsto> registered 111, 222 \<mapsto> registered 222], inflight = []\<rparr>"

section \<open>Lemmas\<close>

lemma iter_removed_killed:
  assumes "ctl_inv s" and "\<forall>n. fork_ok env n" and "ctl_iter env s = Inr (Continue s')"
  shows "set (pids s') \<subseteq> set (pids s)
         \<and> (\<forall>p\<in>set (pids s) - set (pids s'). (p, SIGKILL) \<in> set (drop (length (sent s)) (sent s')))"
proof -
  let ?k = "nat (spec_counter s' - 1)"
  have p: "pids s' = (if selection s' = 5 then remove_nth ?k (pids s) else pids s)"
    using iter_pids [OF assms(1,3)] by simp
  have snt: "sent s' = sent s @ (case action_sig (selection s') of None \<Rightarrow> []
             | Some g \<Rightarrow> [(pids s ! ?k, g)])"
    using iter_sent [OF assms(3), of s'] assms(2) by (simp split: option.splits)
  have k: "?k < length (pids s)"
    using iter_index [OF assms(3)] assms(1) by (simp add: ctl_inv_def)
  show ?thesis
    using p snt set_remove_nth [of ?k "pids s"] set_remove_nth_insert [OF k]
    by (auto simp: action_sig_def)
qed

lemma gone_kernel_send: "gone c \<Longrightarrow> gone (map_option (kernel_send g) c)"
  by (cases c) (simp_all add: kernel_send_def)

lemma gone_kill: "gone (map_option (kernel_send SIGKILL) c)"
  by (cases c) (simp_all add: kernel_send_def)

lemma gone_cstep: "gone (Some c) \<Longrightarrow> gone (Some (cstep c e))"
  by (simp add: killed_final)

lemma in_remove_nth: "x \<in> set xs \<Longrightarrow> x \<noteq> xs ! j \<Longrightarrow> j < length xs \<Longrightarrow> x \<in> set (remove_nth j xs)"
  using set_remove_nth_insert [of j xs] by simp

lemma sys_inv_ctl_pass:
  assumes "sys_inv P0 S" and "\<forall>n. fork_ok env n" and "ctl_iter env (sctl S) = Inr (Continue c')"
  shows "sys_inv P0 (S\<lparr>sctl := c', inflight := inflight S @ drop (length (sent (sctl S))) (sent c')\<rparr>)"
proof -
  have inv: "ctl_inv (sctl S)" and sub: "set (pids (sctl S)) \<subseteq> P0"
    and old: "\<forall>p\<in>P0 - set (pids (sctl S)). (p, SIGKILL) \<in> set (inflight S) \<or> gone (procs S p)"
    using assms(1) by (simp_all add: sys_inv_def)
  have r: "set (pids c') \<subseteq> set (pids (sctl S))"
    and k: "\<forall>p\<in>set (pids (sctl S)) - set (pids c'). (p, SIGKILL) \<in> set (drop (length (sent (sctl S))) (sent c'))"
    using iter_removed_killed [OF inv assms(2,3)] by simp_all
  have "ctl_inv c'" by (rule iter_inv [OF inv assms(3)])
  moreover have "set (pids c') \<subseteq> P0" using r sub by (rule order.trans)
  moreover have "\<forall>p\<in>P0 - set (pids c'). (p, SIGKILL) \<in> set (inflight S @ drop (length (sent (sctl S))) (sent c'))
                    \<or> gone (procs S p)"
  proof
    fix p assume p: "p \<in> P0 - set (pids c')"
    show "(p, SIGKILL) \<in> set (inflight S @ drop (length (sent (sctl S))) (sent c')) \<or> gone (procs S p)"
    proof (cases "p \<in> set (pids (sctl S))")
      case True
      then show ?thesis using p k by simp
    next
      case False
      then show ?thesis using p old by auto
    qed
  qed
  ultimately show ?thesis using assms(1) by (simp add: sys_inv_def)
qed

lemma sys_inv_child:
  assumes "sys_inv P0 S" and "j < length (inflight S)" and "inflight S ! j = (p, g)"
  shows "sys_inv P0 (S\<lparr>procs := (procs S)(p := map_option (kernel_send g) (procs S p)),
                       inflight := remove_nth j (inflight S)\<rparr>)"
proof -
  have old: "\<forall>q\<in>P0 - set (pids (sctl S)). (q, SIGKILL) \<in> set (inflight S) \<or> gone (procs S q)"
    using assms(1) by (simp add: sys_inv_def)
  have "\<forall>q\<in>P0 - set (pids (sctl S)). (q, SIGKILL) \<in> set (remove_nth j (inflight S))
          \<or> gone (((procs S)(p := map_option (kernel_send g) (procs S p))) q)"
  proof
    fix q assume q: "q \<in> P0 - set (pids (sctl S))"
    show "(q, SIGKILL) \<in> set (remove_nth j (inflight S))
          \<or> gone (((procs S)(p := map_option (kernel_send g) (procs S p))) q)"
    proof (cases "q = p")
      case True
      show ?thesis
      proof (cases "g = SIGKILL")
        case True
        then show ?thesis using \<open>q = p\<close> gone_kill by simp
      next
        case False
        then have "(q, SIGKILL) \<noteq> inflight S ! j" using assms(3) by simp
        then show ?thesis using \<open>q = p\<close> old q in_remove_nth [OF _ _ assms(2)] gone_kernel_send by fastforce
      qed
    next
      case False
      then have "(q, SIGKILL) \<noteq> inflight S ! j" using assms(3) by simp
      then show ?thesis using False old q in_remove_nth [OF _ _ assms(2)] by fastforce
    qed
  qed
  then show ?thesis using assms(1) by (simp add: sys_inv_def)
qed

lemma sys_inv_counter:
  assumes "sys_inv P0 S" and "procs S p = Some c"
  shows "sys_inv P0 (S\<lparr>procs := (procs S)(p \<mapsto> cstep c e)\<rparr>)"
proof -
  have "gone (procs S q) \<Longrightarrow> gone (((procs S)(p \<mapsto> cstep c e)) q)" for q
    using assms(2) gone_cstep by (cases "q = p") simp_all
  then show ?thesis using assms(1) by (fastforce simp: sys_inv_def)
qed

lemma sys_inv_spawn:
  assumes "sys_inv P0 S" and "procs S p = None"
  shows "sys_inv P0 (S\<lparr>procs := (procs S)(p \<mapsto> counter_init p)\<rparr>)"
proof -
  have "p \<notin> P0" using assms by (auto simp: sys_inv_def)
  then show ?thesis using assms(1) by (auto simp: sys_inv_def)
qed

lemma sys_step_inv:
  assumes "sys_step env S S'" and "sys_inv P0 S" and "\<forall>n. fork_ok env n"
  shows "sys_inv P0 S'"
  using assms(1)
proof (cases rule: sys_step.cases)
  case (ctl_pass c')
  then show ?thesis using sys_inv_ctl_pass [OF assms(2,3)] by simp
next
  case (child j p g)
  then show ?thesis using sys_inv_child [OF assms(2)] by simp
next
  case (counter_main p c)
  then show ?thesis using sys_inv_counter [OF assms(2) counter_main(2), of MainStep] by (simp del: cstep.simps)
next
  case (counter_deliver p c g)
  then show ?thesis using sys_inv_counter [OF assms(2) counter_deliver(2), of "Deliver g"] by (simp del: cstep.simps)
next
  case (spawn p)
  then show ?thesis using sys_inv_spawn [OF assms(2)] by simp
qed

lemma sys_reach_inv:
  "(sys_step env)\<^sup>*\<^sup>* S0 S \<Longrightarrow> sys_inv P0 S0 \<Longrightarrow> \<forall>n. fork_ok env n \<Longrightarrow> sys_inv P0 S"
  by (induction rule: rtranclp_induct) (auto intro: sys_step_inv)

lemma demo_first_pass:
  "\<exists>c1. ctl_iter good_env (sctl (demo_sys [1, 5])) = Inr (Continue c1) \<and> pids c1 = [222]
        \<and> sent c1 = [(111, SIGKILL)] \<and> qty c1 = 1"
  by (simp add: demo_sys_def ctl_iter_def ctl_init_def Let_def action_sig_def fork_kill_def good_env_def
      shift_loop_step shift_loop_stop)

section \<open>Properties of the system\<close>

text \<open>
  C25. Termination is eventually carried out: with \<^verbatim>\<open>fork\<close> succeeding, and
  every registered id naming a process at the start, once every forked child
  has run, each registered id that has been removed from the registry names no
  running counter: its process is killed (even if counters are started
  meanwhile).
\<close>

theorem sys_removed_killed:
  assumes "(sys_step env)\<^sup>*\<^sup>* S0 S" and "ctl_inv (sctl S0)" and "\<forall>n. fork_ok env n"
    and "p \<in> set (pids (sctl S0))" and "p \<notin> set (pids (sctl S))" and "inflight S = []"
    and "\<forall>q\<in>set (pids (sctl S0)). procs S0 q \<noteq> None" and "procs S p = Some c"
  shows "status c = Killed"
proof -
  have "sys_inv (set (pids (sctl S0))) S0" using assms(2,7) by (simp add: sys_inv_def)
  then have "sys_inv (set (pids (sctl S0))) S" using sys_reach_inv [OF assms(1)] assms(3) by blast
  then have "gone (procs S p)" using assms(4-6) by (auto simp: sys_inv_def)
  with assms(8) show ?thesis by simp
qed

theorem sys_removed_killed_witness:
  "\<exists>S. (sys_step good_env)\<^sup>*\<^sup>* (demo_sys [1, 5]) S \<and> 111 \<notin> set (pids (sctl S)) \<and> inflight S = []
        \<and> procs S 111 \<noteq> None \<and> status (the (procs S 111)) = Killed"
proof -
  let ?S0 = "demo_sys [1, 5]"
  obtain c1 where c1: "ctl_iter good_env (sctl ?S0) = Inr (Continue c1)" "pids c1 = [222]"
      "sent c1 = [(111, SIGKILL)]"
    using demo_first_pass by blast
  let ?S1 = "?S0\<lparr>sctl := c1, inflight := inflight ?S0 @ drop (length (sent (sctl ?S0))) (sent c1)\<rparr>"
  have s1: "sys_step good_env ?S0 ?S1"
    by (rule sys_step.ctl_pass [OF _ c1(1)]) (simp add: demo_sys_def ctl_init_def)
  have i1: "inflight ?S1 = [(111, SIGKILL)]" using c1(3) by (simp add: demo_sys_def ctl_init_def)
  let ?S2 = "?S1\<lparr>procs := (procs ?S1)(111 := map_option (kernel_send SIGKILL) (procs ?S1 111)),
                  inflight := remove_nth 0 (inflight ?S1)\<rparr>"
  have s2: "sys_step good_env ?S1 ?S2"
    by (rule sys_step.child) (simp_all add: i1)
  have r: "(sys_step good_env)\<^sup>*\<^sup>* ?S0 ?S2" using s1 s2 by simp
  let ?K = "kernel_send SIGKILL (registered 111)"
  have c: "procs ?S2 111 = Some ?K" by (simp add: demo_sys_def)
  have b: "inflight ?S2 = []" using i1 by simp
  have a: "111 \<notin> set (pids (sctl ?S2))" using c1(2) by simp
  have inv: "ctl_inv (sctl ?S0)" by (simp add: demo_sys_def ctl_inv_def ctl_init_def)
  have m: "111 \<in> set (pids (sctl ?S0))" by (simp add: demo_sys_def ctl_init_def)
  have f: "\<forall>n. fork_ok good_env n" by (simp add: good_env_def)
  have ex: "\<forall>q\<in>set (pids (sctl ?S0)). procs ?S0 q \<noteq> None" by (simp add: demo_sys_def ctl_init_def)
  have d: "status ?K = Killed" by (rule sys_removed_killed [OF r inv f m a b ex c])
  show ?thesis using r a b c d by auto
qed

end
