(* ===== verification/Spec2Isabelle.thy ===== *)
theory Spec2Isabelle
  imports Counter CounterLoad CounterRefine Controller Registry Console System
begin

text \<open>
  \<^bold>\<open>A verification model of ProcessSignals.\<close>

  The repository has two C programs that talk only through POSIX signals.
  \<^item> The infinite counter, \<^verbatim>\<open>src/Signals/infcounter/src/counter.c\<close>, keeps two
    \<^verbatim>\<open>volatile sig_atomic_t\<close> globals, the counter \<^verbatim>\<open>i\<close> and the direction
    \<^verbatim>\<open>sign\<close>. It installs \<^verbatim>\<open>handler\<close> for \<^verbatim>\<open>SIGUSR1\<close> (reset) and
    \<^verbatim>\<open>SIGUSR2\<close> (reverse direction), then loops forever: print, \<^verbatim>\<open>i += sign\<close>,
    \<^verbatim>\<open>sleep(1)\<close>.
  \<^item> The controller, \<^verbatim>\<open>src/Signals/src/handler.c\<close>, reads a quantity (0 to 5)
    and that many process ids. While ids remain, it reads a 1-based index and an
    action code. It forks a child that sends \<^verbatim>\<open>SIGSTOP\<close>, \<^verbatim>\<open>SIGCONT\<close>,
    \<^verbatim>\<open>SIGUSR2\<close>, \<^verbatim>\<open>SIGUSR1\<close> or \<^verbatim>\<open>SIGKILL\<close> to the selected id. On a kill
    it also compacts the array and shrinks it with \<^verbatim>\<open>realloc\<close>.

  \<^bold>\<open>Theories.\<close>
  \<^item> \<open>Prelude\<close>: the signal datatype \<open>sig\<close> and \<open>signum\<close> (the Linux numbers),
    \<open>sword\<close> (32-bit \<^verbatim>\<open>int\<close>), \<open>remove_nth\<close> (the reference for compaction),
    and shared lemmas on lists and signed words.
  \<^item> \<open>Counter\<close>: the counter process. Its state is the record \<open>cstate\<close>:
    \<^verbatim>\<open>i\<close>, \<^verbatim>\<open>sign\<close>, the program point \<open>cpc\<close> of \<^verbatim>\<open>main\<close>, and the kernel's
    view (status, pending signals, installed handlers). The printed lines are kept
    as \<open>out\<close>. \<open>handler\<close> is the C handler. \<open>main_step\<close> is one statement of
    \<^verbatim>\<open>main\<close>, with \<^verbatim>\<open>i += sign\<close> split into a load and a store, because a
    signal may be handled between them. \<open>kernel_send\<close> and \<open>deliver\<close> model signal
    generation and delivery after POSIX: pending signals form a set, so repeated
    signals merge, and an uninstalled \<^verbatim>\<open>SIGUSR1/2\<close> terminates. \<open>cstep\<close> takes
    one event of an explicit interleaving (\<open>MainStep\<close>, \<open>Send g\<close>,
    \<open>Deliver g\<close>), \<open>crun\<close> runs a list of events, and \<open>creach\<close> is the
    inductive set of reachable states.
  \<^item> \<open>CounterLoad\<close>: the two reads of \<^verbatim>\<open>i += sign\<close> as separate steps,
    in either order (\<open>load_sign_first\<close>, \<open>load_i_first\<close>), with signal
    deliveries between them.
  \<^item> \<open>CounterRefine\<close>: the whole counter program with the two reads as
    separate steps (\<open>freach\<close>, with the pending read in \<open>fread\<close>). Any signal
    event, including stop, resume and kill, may occur between the reads.
  \<^item> \<open>Controller\<close>: the controller. Its state is the record \<open>ctl\<close>: the C
    locals, the unread input, the signals handed to forked children, and the
    messages printed. The library calls' outcomes (\<^verbatim>\<open>malloc\<close>,
    \<^verbatim>\<open>realloc\<close>, \<^verbatim>\<open>fork\<close>, and uninitialised heap cells) are the record
    \<open>cenv\<close>. \<open>scan_int\<close> is \<^verbatim>\<open>scanf("%d")\<close>, which leaves its variable alone
    at end of input. \<open>read_qty\<close> is the validation loop and
    \<open>read_pids_loop\<close> the id-reading loop (both \<^theory_text>\<open>function\<close> with a
    measure). \<open>shift_loop\<close> is the compaction loop. \<open>ctl_iter\<close> is one pass
    of the interaction loop: an out-of-range index is the error
    \<open>IndexOutOfRange\<close>, because the C read is undefined behaviour. \<open>ctl_loop\<close>
    is the \<^verbatim>\<open>while (qty > 0)\<close> loop as a \<^theory_text>\<open>partial_function (option)\<close>,
    where \<open>None\<close> means the loop does not return. \<open>controller_main\<close> composes
    them as \<^verbatim>\<open>main\<close> does.
  \<^item> \<open>Registry\<close>: the specification's ProcessRegistry as an abstract data
    type. It is a list of ids plus the log of signals sent, with the operations
    \<open>SignalOp k g\<close> and \<open>TerminateOp k\<close> (\<open>reg_step\<close>, \<open>reg_run\<close>), and
    \<open>reg_valid\<close> requires each operation to name an existing entry.
    \<open>iter_op\<close> reads off the operation one pass of the controller performs, and
    \<open>ctl_trace\<close> is a run of passes with the operations they perform.
  \<^item> \<open>Console\<close>: the text on the terminal. \<open>fmt_int\<close> is the \<^verbatim>\<open>%d\<close>
    conversion, \<open>counter_line\<close> is the counter's \<^verbatim>\<open>printf\<close> of line 34, and
    \<open>msg_text\<close> is every \<^verbatim>\<open>printf\<close>/\<^verbatim>\<open>perror\<close> string of the controller.
    \<open>listing_text\<close> is its numbered registry listing, and \<open>msg_stream\<close>
    separates standard output from standard error. The parsers
    \<open>parse_counter_text\<close> and \<open>parse_listing\<close> read the two formats back.
  \<^item> \<open>System\<close>: the running system. The record \<open>sys\<close> holds the
    controller state, the counter processes by pid (\<open>procs\<close>), and the signals
    handed to forked children that have not yet run (\<open>inflight\<close>).
    \<open>sys_step\<close> interleaves a controller pass (\<open>ctl_iter\<close>), a child's
    \<^verbatim>\<open>kill(p, g)\<close> (any pending child, in any order, with no effect when no
    process has id \<open>p\<close>), a counter step, and the operator starting a new
    counter under an id that names no process. Reachability is
    \<open>(sys_step env)\<^sup>*\<^sup>*\<close>.
  \<^item> This theory connects the two programs: \<open>signals_to p\<close> turns the controller's
    dispatched signals for id \<open>p\<close> into send/deliver events of that counter.

  \<^bold>\<open>What is proved.\<close>
  Counter: every reachable state has direction \<open>1\<close> or \<open>-1\<close> (rule induction
  over \<open>creach\<close>). The printed values start at \<open>0\<close> and each next one is
  the previous plus or minus one in 32-bit two's complement, so \<^verbatim>\<open>INT_MAX\<close>
  is followed by \<^verbatim>\<open>INT_MIN\<close>, or \<open>0\<close>, \<open>1\<close> or \<open>-1\<close> after a reset
  (an invariant \<open>out_inv\<close> relating the last printed value to \<^verbatim>\<open>i\<close> and the
  program point). Direction parity holds under any sequence of handled
  signals, and the two handler branches commute. The value printed after a reset
  depends on where the loop was, and the reset is lost between the load and the
  store of \<^verbatim>\<open>i += sign\<close>. Undisturbed ticks print \<open>i + k * sign\<close> while
  \<^verbatim>\<open>int\<close> does not overflow. Once both
  handlers are installed, four loop statements always print a new line, whatever
  signals other than stop and kill arrive in between (liveness). In every
  reachable state a delivered signal kills exactly when its handler is not yet
  installed, which depends on the order of the two \<^verbatim>\<open>signal\<close> calls.
  The two reads of \<^verbatim>\<open>i += sign\<close>, in either order and with any deliveries
  between them, equal a one-load run with each delivery moved before or after
  the load. So the one-load model of \<open>Counter\<close> loses no behaviour. Over
  whole runs, every state the two-read program reaches is reached by the
  one-load model (\<open>freach_creach\<close>: rule induction over \<open>freach\<close>, with an
  invariant naming the state of the first read, and for each window between
  the reads an explicit one-load run that ends in the same state).

  Controller: a kill removes exactly the selected entry. Along the loop the
  invariant holds and the registry stays a subsequence of the start. Other
  actions send exactly the tabled signal. A
  failed \<^verbatim>\<open>realloc\<close> exits with status 1 after the kill has been sent. A
  failed \<^verbatim>\<open>fork\<close> sends nothing but still removes the entry. The validation
  loop stops at the first valid quantity, and start-up stores the ids in order.
  The compaction loop
  equals \<open>remove_nth\<close>. The loop returns on an input that kills every entry,
  and does not return at end of input after a non-kill action.

  Registry: every run of the controller loop that ends with status 0 refines a
  valid run of the abstract registry (simulation by rule induction over
  \<open>ctl_trace\<close>, from the loop by \<open>ctl_loop.raw_induct\<close>). Such a run only
  signals registered ids, keeps the survivors in order, and accounts for every
  registered id as still listed or killed exactly once (a multiset equation).

  Console: the decimal conversion round-trips. The counter's whole output parses
  back to the printed pairs, and the registry listing parses back to its entries.
  The complaint about a bad
  quantity has no newline, so the next prompt follows on the same line.

  System: with \<^verbatim>\<open>fork\<close> succeeding and every registered id naming a process
  at the start, once all children have run, every id removed from the registry
  names a killed process (an invariant \<open>sys_inv\<close> over \<open>sys_step\<close> preserved
  by each of its rules).

  Across the programs (this theory): the signals the controller dispatches to a
  running counter with both handlers installed leave it at the same point of its
  loop with the same output; they flip its direction exactly when an odd number
  of \<^verbatim>\<open>SIGUSR2\<close> were sent, and set \<^verbatim>\<open>i\<close> to \<open>0\<close> exactly when a
  \<^verbatim>\<open>SIGUSR1\<close> was sent (via \<open>crun_signals_to\<close>: the events equal the handler
  folded over the signals in dispatch order).

  \<^bold>\<open>Bounds and fuel.\<close> No fuel is used. Every loop but two is a
  \<^theory_text>\<open>function\<close> with a measure: the remaining input for \<open>read_qty\<close>, the
  remaining indices for the other loops, and the remaining text for
  \<open>split_lines_aux\<close>. The controller's main loop need not return, so it is
  \<open>partial_function (option)\<close>: its termination is proved for a given input
  (\<open>ctl_loop_kill_all\<close>) and its divergence for another
  (\<open>ctl_loop_eof_diverges\<close>). The refinement is stated for the runs that
  return. The counter's \<^verbatim>\<open>while (1)\<close> never returns; it is the event
  relation, and runs are finite prefixes. The liveness bound 4 is the number of
  statements of its loop body. The quantity bound 5 and the 32-bit width of
  \<^verbatim>\<open>int\<close> come from the source.

  \<^bold>\<open>Not modelled.\<close> Non-numeric input that \<^verbatim>\<open>scanf\<close> rejects is not
  modelled: the input is a list of integers. The text \<^verbatim>\<open>strerror\<close> gives after
  \<^verbatim>\<open>perror\<close>'s colon is a parameter. Buffering and the interleaving of
  standard output with standard error are not modelled. Wall-clock time and the
  duration of \<^verbatim>\<open>sleep\<close> are not modelled. The child processes are not
  modelled beyond the one signal each sends. A \<^verbatim>\<open>kill\<close> with an id
  \<open>p \<le> 0\<close> signals a process group or every process; it is not modelled,
  and such a child stays pending. Delivery of signals other than the five named is
  not modelled. Spawning is modelled only as a counter appearing under an unused
  id; how the OS chooses ids, and their reuse after a process is reaped, are not
  modelled.

  \<^bold>\<open>Plan.\<close> The components were modelled in order of importance: the counter's
  signal-driven state machine, then the controller's registry protocol, then
  their connection, the abstract registry with the refinement, the console
  text, the interleaved system of all processes, and the two-read refinement of
  the counter. Further work, in order:
  \<^enum> pid reuse after a killed counter is reaped, which would make a registry
    entry name an unrelated process;
  \<^enum> the group and broadcast kills of ids \<open>p \<le> 0\<close> in the system model.
\<close>

section \<open>Connecting the controller to the counters\<close>

text \<open>
  The signals the controller's children send to id \<open>p\<close>, in order, each
  generated and then delivered to the counter with that id.
\<close>

definition signals_to :: "pid \<Rightarrow> (pid \<times> sig) list \<Rightarrow> cevent list" where
  "signals_to p xs = concat (map (\<lambda>(q, g). if q = p then [Send g, Deliver g] else []) xs)"

definition handled_sigs :: "pid \<Rightarrow> (pid \<times> sig) list \<Rightarrow> int list" where
  "handled_sigs p xs = map (\<lambda>(q, g). signum g) (filter (\<lambda>(q, g). q = p \<and> g \<in> {SIGUSR1, SIGUSR2}) xs)"

lemma signals_to_Cons:
  "signals_to p ((q, g) # xs) = (if q = p then [Send g, Deliver g] else []) @ signals_to p xs"
  by (simp add: signals_to_def)

lemma send_deliver_pair:
  assumes "status s = Running" and "pending s = {}" and "handled s = {SIGUSR1, SIGUSR2}"
    and "g \<notin> {SIGSTOP, SIGKILL}"
  shows "crun s [Send g, Deliver g] = (if g \<in> {SIGUSR1, SIGUSR2} then handler (signum g) s else s)"
  using assms
  by (cases g) (auto simp: kernel_send_def deliver_def handler_def Let_def intro: cstate.equality)

lemma handler_frame:
  "status (handler sg s) = status s \<and> pending (handler sg s) = pending s
   \<and> handled (handler sg s) = handled s \<and> cpc (handler sg s) = cpc s"
  by (simp add: handler_def Let_def)

lemma crun_signals_to:
  assumes "counter_inv s" and "status s = Running" and "pending s = {}"
    and "cpc s \<notin> {RegUsr1, RegUsr2}"
    and "\<forall>(q, g) \<in> set xs. q = p \<longrightarrow> g \<notin> {SIGSTOP, SIGKILL}"
  shows "crun s (signals_to p xs) = fold handler (handled_sigs p xs) s"
  using assms
proof (induction xs arbitrary: s)
  case Nil
  then show ?case by (simp add: signals_to_def handled_sigs_def)
next
  case (Cons x xs)
  obtain q g where x: "x = (q, g)" by fastforce
  have hs: "handled s = {SIGUSR1, SIGUSR2}"
    using Cons.prems(1,4) by (cases "cpc s") (auto simp: counter_inv_def)
  let ?s1 = "if q = p \<and> g \<in> {SIGUSR1, SIGUSR2} then handler (signum g) s else s"
  have step: "crun s (signals_to p (x # xs)) = crun ?s1 (signals_to p xs)"
    using send_deliver_pair [OF Cons.prems(2,3) hs, of g] Cons.prems(5) x
    by (auto simp: signals_to_Cons crun_append)
  have inv1: "counter_inv ?s1" using Cons.prems(1) by (simp add: handler_inv)
  have fr: "status ?s1 = Running \<and> pending ?s1 = {} \<and> cpc ?s1 = cpc s"
    using Cons.prems(2,3) by (simp add: handler_frame)
  have "crun ?s1 (signals_to p xs) = fold handler (handled_sigs p xs) ?s1"
    using Cons.IH [OF inv1] fr Cons.prems(4,5) by simp
  then show ?case using step x by (auto simp: handled_sigs_def)
qed

lemma count_handled_sigs:
  "count_list (handled_sigs p xs) (signum SIGUSR2) = count_list xs (p, SIGUSR2)"
  by (induction xs) (auto simp: handled_sigs_def signum_eq_iff)

lemma usr1_in_handled_sigs:
  "signum SIGUSR1 \<in> set (handled_sigs p xs) \<longleftrightarrow> (p, SIGUSR1) \<in> set xs"
  by (induction xs) (auto simp: handled_sigs_def signum_eq_iff)

section \<open>Properties spanning the components\<close>

text \<open>
  C15. The effect of the controller's signals on a counter. Take a counter that
  runs with both handlers installed and nothing pending, and let the controller's
  children send it signals, each delivered when sent, all of them \<^verbatim>\<open>SIGUSR1\<close>,
  \<^verbatim>\<open>SIGUSR2\<close> or \<^verbatim>\<open>SIGCONT\<close> for this id. Afterwards the counter still
  runs at the same point of its loop with the same output, its direction is flipped
  exactly when it was sent an odd number of \<^verbatim>\<open>SIGUSR2\<close>, and \<^verbatim>\<open>i\<close> is
  \<open>0\<close> if it was sent a \<^verbatim>\<open>SIGUSR1\<close> and unchanged otherwise.
\<close>

theorem dispatch_effect:
  assumes "creach p s" and "status s = Running" and "pending s = {}"
    and "cpc s \<notin> {RegUsr1, RegUsr2}"
    and "\<forall>(q, g) \<in> set xs. q = p \<longrightarrow> g \<in> {SIGUSR1, SIGUSR2, SIGCONT}"
  shows "sign (crun s (signals_to p xs)) =
           (if even (count_list xs (p, SIGUSR2)) then sign s else - sign s)
         \<and> i (crun s (signals_to p xs)) = (if (p, SIGUSR1) \<in> set xs then 0 else i s)
         \<and> status (crun s (signals_to p xs)) = Running \<and> cpc (crun s (signals_to p xs)) = cpc s
         \<and> out (crun s (signals_to p xs)) = out s"
proof -
  have "\<forall>(q, g) \<in> set xs. q = p \<longrightarrow> g \<notin> {SIGSTOP, SIGKILL}" using assms(5) by auto
  then have run: "crun s (signals_to p xs) = fold handler (handled_sigs p xs) s"
    using crun_signals_to [OF creach_inv [OF assms(1)] assms(2-4)] by blast
  have fold: "sign (fold handler gs t) = (if even (count_list gs (signum SIGUSR2)) then sign t else - sign t)
      \<and> i (fold handler gs t) = (if signum SIGUSR1 \<in> set gs then 0 else i t)
      \<and> status (fold handler gs t) = status t \<and> cpc (fold handler gs t) = cpc t
      \<and> out (fold handler gs t) = out t" for gs t
    by (induction gs arbitrary: t) (auto simp: handler_def Let_def)
  show ?thesis
    using fold [of "handled_sigs p xs" s] assms(2)
    by (simp only: run count_handled_sigs usr1_in_handled_sigs)
qed

theorem dispatch_effect_witness:
  "sign (crun (registered 111) (signals_to 111 [(111, SIGUSR2), (222, SIGKILL), (111, SIGCONT)])) = - 1
   \<and> i (crun (registered 111) (signals_to 111 [(111, SIGUSR2), (222, SIGKILL), (111, SIGUSR1)])) = 0"
proof -
  have r: "creach 111 (registered 111)" unfolding registered_def by (rule creach_crun [OF creach.init])
  have h: "status (registered 111) = Running" "pending (registered 111) = {}"
      "cpc (registered 111) \<notin> {RegUsr1, RegUsr2}"
    by (simp_all add: counter_simps)
  have a: "\<forall>(q, g) \<in> set [(111, SIGUSR2), (222, SIGKILL), (111, SIGCONT)].
         q = (111::int) \<longrightarrow> g \<in> {SIGUSR1, SIGUSR2, SIGCONT}"
    and b: "\<forall>(q, g) \<in> set [(111, SIGUSR2), (222, SIGKILL), (111, SIGUSR1)].
         q = (111::int) \<longrightarrow> g \<in> {SIGUSR1, SIGUSR2, SIGCONT}"
    by simp_all
  have s0: "sign (registered 111) = 1" by (simp add: counter_simps)
  show ?thesis
    using dispatch_effect [OF r h a] dispatch_effect [OF r h b] s0 by simp
qed

end
